theory Spec2Isabelle
  imports Complex_Main "HOL-Library.FSet" "HOL-Library.AList" "HOL-Library.Char_ord"
    "HOL-Library.List_Lexorder"
begin

section \<open>Data model\<close>

text \<open>
  The Python scripts keep a policy rule as an identifier, an effect and an ordered list
  of conditions. \<^verbatim>\<open>testcase.py\<close> writes a condition as the tuple
  \<^verbatim>\<open>(attr, category, value)\<close>; \<^verbatim>\<open>xacml_testcase_ga.py\<close> writes it as a
  dictionary with the keys \<^verbatim>\<open>attr\<close>, \<^verbatim>\<open>category\<close>, \<^verbatim>\<open>value\<close>. Both are the
  triple below.

  A Python \<^verbatim>\<open>dict\<close> keeps its keys in insertion order, and the generator iterates over
  that order, so a dictionary is an association list with distinct keys:
  \<^const>\<open>AList.update\<close> overwrites the value of a key that is present and appends a new
  key at the end, as \<^verbatim>\<open>d[k] = v\<close> does. A Python \<^verbatim>\<open>set\<close> is finite: \<open>'a fset\<close>.
\<close>

type_synonym condition = "string \<times> string \<times> string"

record rule =
  rule_id :: string
  effect :: string
  conditions :: "condition list"

type_synonym assignment = "(string \<times> (string \<times> string)) list"

record test_case =
  tc_id :: int
  attributes :: assignment
  covers :: "string fset"

record domain =
  category :: string
  dvalues :: "string fset"

type_synonym domains = "(string \<times> domain) list"

datatype py_error = ZeroDivisionError | ValueError | IndexError


section \<open>Attribute domains (\<^verbatim>\<open>testcase.py\<close>, \<^verbatim>\<open>build_attribute_domains\<close>)\<close>

text \<open>\<^verbatim>\<open>d.setdefault(k, v)\<close>: a key that is present keeps its value.\<close>

definition setdefault :: "('k \<times> 'v) list \<Rightarrow> 'k \<Rightarrow> 'v \<Rightarrow> ('k \<times> 'v) list" where
  "setdefault d k v = (if map_of d k = None then d @ [(k, v)] else d)"

text \<open>\<^verbatim>\<open>domains[attr]["values"].add(value)\<close>: the entry of \<open>attr\<close> gains the value.\<close>

definition add_value :: "domains \<Rightarrow> string \<Rightarrow> string \<Rightarrow> domains" where
  "add_value d attr v =
     map (\<lambda>(a, dm). if a = attr then (a, dm\<lparr>dvalues := finsert v (dvalues dm)\<rparr>) else (a, dm)) d"

definition register_condition :: "condition \<Rightarrow> domains \<Rightarrow> domains" where
  "register_condition cnd d =
     (case cnd of (attr, cat, v) \<Rightarrow>
        add_value (setdefault d attr \<lparr>category = cat, dvalues = {||}\<rparr>) attr v)"

definition collect_domains :: "rule list \<Rightarrow> domains" where
  "collect_domains rules = fold (\<lambda>r d. fold register_condition (conditions r) d) rules []"

definition build_attribute_domains :: "rule list \<Rightarrow> domains" where
  "build_attribute_domains rules =
     map (\<lambda>(a, dm). (a, dm\<lparr>dvalues := finsert ''UNKNOWN'' (dvalues dm)\<rparr>)) (collect_domains rules)"


section \<open>Candidate generation (\<^verbatim>\<open>testcase.py\<close>, \<^verbatim>\<open>generate_test_cases\<close>)\<close>

text \<open>
  \<^verbatim>\<open>attributes.get(a, ("", ""))[0]\<close>: the value assigned to \<open>a\<close>, the empty string when
  \<open>a\<close> has no entry.
\<close>

definition get_value :: "assignment \<Rightarrow> string \<Rightarrow> string" where
  "get_value attrs a = (case map_of attrs a of None \<Rightarrow> [] | Some (v, c) \<Rightarrow> v)"

definition rule_matches :: "assignment \<Rightarrow> rule \<Rightarrow> bool" where
  "rule_matches attrs r = list_all (\<lambda>(a, c, v). get_value attrs a = v) (conditions r)"

definition compute_covers :: "rule list \<Rightarrow> assignment \<Rightarrow> string fset" where
  "compute_covers rules attrs =
     fold (\<lambda>r cov. if rule_matches attrs r then finsert (rule_id r) cov else cov) rules {||}"

text \<open>
  The inner loop \<^verbatim>\<open>for attr, value in zip(attrs, combination)\<close> stores
  \<^verbatim>\<open>(value, domains[attr]["category"])\<close>. The list \<^verbatim>\<open>attrs\<close> is the key list of
  \<^verbatim>\<open>domains\<close>, so the lookup is the entry at the same position and the loop runs over
  the entries themselves.
\<close>

definition build_assignment :: "domains \<Rightarrow> string list \<Rightarrow> assignment" where
  "build_assignment doms combination =
     fold (\<lambda>((attr, dm), v) attrs. AList.update attr (v, category dm) attrs)
          (zip doms combination) []"

text \<open>
  The loop over \<^verbatim>\<open>itertools.product(*value_sets)\<close> with its counter \<^verbatim>\<open>tc_id\<close>.
\<close>

fun make_cases :: "rule list \<Rightarrow> domains \<Rightarrow> string list list \<Rightarrow> int \<Rightarrow> test_case list" where
  "make_cases rules doms [] n = []"
| "make_cases rules doms (combination # rest) n =
     (let attrs = build_assignment doms combination in
      \<lparr>tc_id = n, attributes = attrs, covers = compute_covers rules attrs\<rparr>
        # make_cases rules doms rest (n + 1))"

text \<open>
  \<^verbatim>\<open>list(domains[a]["values"])\<close> lists a Python set in an order the language does not
  fix; the order in which the value set of an attribute is listed is the parameter
  \<open>list_of\<close>. \<^const>\<open>product_lists\<close> enumerates the
  Cartesian product as \<^verbatim>\<open>itertools.product\<close> does, the last component varying
  fastest, and the product of no lists is the one empty tuple.
\<close>

definition generate_test_cases ::
  "(string \<Rightarrow> string fset \<Rightarrow> string list) \<Rightarrow> rule list \<Rightarrow> test_case list" where
  "generate_test_cases list_of rules =
     (let doms = build_attribute_domains rules;
          value_sets = map (\<lambda>(a, dm). list_of a (dvalues dm)) doms
      in make_cases rules doms (product_lists value_sets) 1)"


section \<open>One candidate per rule (\<^verbatim>\<open>xacml_testcase_ga.py\<close>, \<^verbatim>\<open>dfs_generate_test_cases\<close>)\<close>

definition rule_assignment :: "condition list \<Rightarrow> assignment" where
  "rule_assignment conds = fold (\<lambda>(a, c, v) attrs. AList.update a (v, c) attrs) conds []"

fun dfs_loop :: "rule list \<Rightarrow> int \<Rightarrow> test_case list \<times> int" where
  "dfs_loop [] n = ([], n)"
| "dfs_loop (r # rs) n =
     (let (tcs, m) = dfs_loop rs (n + 1) in
      (\<lparr>tc_id = n, attributes = rule_assignment (conditions r), covers = {|rule_id r|}\<rparr> # tcs, m))"

definition dfs_generate_test_cases :: "rule list \<Rightarrow> test_case list" where
  "dfs_generate_test_cases rules =
     (let (tcs, n) = dfs_loop rules 1 in
      tcs @ [\<lparr>tc_id = n, attributes = [(''role'', (''unknown'', ''subject''))], covers = {||}\<rparr>])"


section \<open>Coverage (\<^verbatim>\<open>rule_coverage\<close>)\<close>

text \<open>
  \<^verbatim>\<open>len(covered) / len(all_rules)\<close> divides two integers and raises
  \<^verbatim>\<open>ZeroDivisionError\<close> when the divisor is zero. The quotient is taken in the reals.
\<close>

definition covered_by :: "test_case list \<Rightarrow> string fset" where
  "covered_by tcs = fold (\<lambda>tc covered. covered |\<union>| covers tc) tcs {||}"

definition py_truediv :: "nat \<Rightarrow> nat \<Rightarrow> py_error + real" where
  "py_truediv a b = (if b = 0 then Inl ZeroDivisionError else Inr (real a / real b))"

text \<open>\<^verbatim>\<open>testcase.py\<close> and \<^verbatim>\<open>xacml_testcase_ga.py\<close>.\<close>

definition rule_coverage :: "test_case list \<Rightarrow> string fset \<Rightarrow> py_error + real" where
  "rule_coverage tcs all_rules = py_truediv (fcard (covered_by tcs)) (fcard all_rules)"

text \<open>\<^verbatim>\<open>xacml_test_optimization.py\<close>: an empty selection returns \<^verbatim>\<open>0.0\<close> first.\<close>

definition rule_coverage_opt :: "test_case list \<Rightarrow> string fset \<Rightarrow> py_error + real" where
  "rule_coverage_opt selected_tests all_rules =
     (if selected_tests = [] then Inr 0
      else py_truediv (fcard (covered_by selected_tests)) (fcard all_rules))"



section \<open>Vocabulary of the properties\<close>

text \<open>
  All conditions of a policy in rule order, the values that the conditions on one attribute
  mention, and the category of the first condition on an attribute.
\<close>

definition all_conditions :: "rule list \<Rightarrow> condition list" where
  "all_conditions rules = concat (map conditions rules)"

definition values_for :: "condition list \<Rightarrow> string \<Rightarrow> string fset" where
  "values_for conds a = fset_of_list (map (\<lambda>(a', c, v). v) (filter (\<lambda>(a', c, v). a' = a) conds))"

definition first_category :: "condition list \<Rightarrow> string \<Rightarrow> string option" where
  "first_category conds a = map_option (\<lambda>(a', c, v). c) (find (\<lambda>(a', c, v). a' = a) conds)"

text \<open>One listing order: every value set in ascending order.\<close>

definition sorted_order :: "string \<Rightarrow> string fset \<Rightarrow> string list" where
  "sorted_order a S = sorted_list_of_fset S"

text \<open>The policies at which the properties are evaluated.\<close>

definition two_rule_policy :: "string \<Rightarrow> string \<Rightarrow> rule list" where
  "two_rule_policy c1 c2 =
     [\<lparr>rule_id = ''rule-1'', effect = ''Permit'', conditions = [(''role'', c1, ''manager'')]\<rparr>,
      \<lparr>rule_id = ''rule-2'', effect = ''Deny'', conditions = [(''role'', c2, ''guest'')]\<rparr>]"


definition shadowed_policy :: "rule list" where
  "shadowed_policy =
     [\<lparr>rule_id = ''rule-1'', effect = ''Permit'',
       conditions = [(''role'', ''subject'', ''manager''), (''role'', ''subject'', ''guest'')]\<rparr>]"

definition role_covers :: "string \<Rightarrow> string fset" where
  "role_covers v = (if v = ''manager'' then {|''rule-1''|} else if v = ''guest'' then {|''rule-2''|} else {||})"

definition manager_case :: test_case where
  "manager_case = \<lparr>tc_id = 1, attributes = [(''role'', (''manager'', ''subject''))], covers = {|''rule-1''|}\<rparr>"

definition guest_case :: test_case where
  "guest_case = \<lparr>tc_id = 2, attributes = [(''role'', (''guest'', ''subject''))], covers = {|''rule-2''|}\<rparr>"

definition both_case :: test_case where
  "both_case = \<lparr>tc_id = 1, attributes = [], covers = {|''rule-1'', ''rule-2''|}\<rparr>"


section \<open>The random source\<close>

text \<open>
  The scripts draw from Python's process-wide generator. A run is modelled against the
  sequence of its raw draws, \<open>rnd k\<close> being the \<open>k\<close>-th one, and every function that
  draws takes the position of the next draw and returns the position after it. Each call
  decodes its draws so that every outcome the call can have is the decoding of some draw:
  \<^verbatim>\<open>random.randint(a, b)\<close> is any integer from \<open>a\<close> to \<open>b\<close> and raises
  \<^verbatim>\<open>ValueError\<close> for an empty range; \<^verbatim>\<open>random.random()\<close> is \<open>j / 2^53\<close> for some
  \<open>j < 2^53\<close>; \<^verbatim>\<open>random.sample(xs, 2)\<close> is any two elements at distinct positions and
  raises \<^verbatim>\<open>ValueError\<close> when \<open>xs\<close> has fewer than two elements. A statement for every
  \<open>rnd\<close> is a statement about every run.
\<close>

type_synonym rnd = "nat \<Rightarrow> nat"

definition randint :: "rnd \<Rightarrow> int \<Rightarrow> int \<Rightarrow> nat \<Rightarrow> py_error + (int \<times> nat)" where
  "randint rnd a b k =
     (if b < a then Inl ValueError else Inr (a + int (rnd k mod nat (b - a + 1)), Suc k))"

definition random_float :: "rnd \<Rightarrow> nat \<Rightarrow> real \<times> nat" where
  "random_float rnd k = (real (rnd k mod 2 ^ 53) / 2 ^ 53, Suc k)"

definition random_sample2 :: "rnd \<Rightarrow> 'a list \<Rightarrow> nat \<Rightarrow> py_error + (('a \<times> 'a) \<times> nat)" where
  "random_sample2 rnd xs k =
     (if length xs < 2 then Inl ValueError
      else let i = rnd k mod length xs;
               j = rnd (Suc k) mod (length xs - 1)
           in Inr ((xs ! i, xs ! (if j < i then j else Suc j)), Suc (Suc k)))"

definition zero_draws :: rnd where
  "zero_draws k = 0"


section \<open>Fitness\<close>

text \<open>
  An individual is a list of Python integers. \<^verbatim>\<open>testcase.py\<close> selects the test cases
  whose bit is truthy (\<^verbatim>\<open>if bit\<close>), the two other scripts those whose bit equals 1.
  The default weights are \<^verbatim>\<open>alpha=0.8\<close> and \<^verbatim>\<open>beta=0.2\<close>; sums and products are
  taken in the reals. Python computes them in binary64, whose rounding can put in strict
  order two individuals whose fitness is equal in the reals; the runs evaluated below
  compare fitness values that differ by 0.3 or more.
\<close>

type_synonym individual = "int list"

definition alpha_default :: real where
  "alpha_default = 8 / 10"

definition beta_default :: real where
  "beta_default = 2 / 10"

definition selected_if :: "(int \<Rightarrow> bool) \<Rightarrow> individual \<Rightarrow> test_case list \<Rightarrow> test_case list" where
  "selected_if chosen ind tcs = map snd (filter (\<lambda>(bit, tc). chosen bit) (zip ind tcs))"

definition weigh ::
  "(test_case list \<Rightarrow> string fset \<Rightarrow> py_error + real) \<Rightarrow> test_case list \<Rightarrow> test_case list
     \<Rightarrow> string fset \<Rightarrow> real \<Rightarrow> real \<Rightarrow> py_error + real" where
  "weigh coverage selected tcs all_rules alpha beta =
     (if selected = [] then Inr 0
      else case coverage selected all_rules of
             Inl e \<Rightarrow> Inl e
           | Inr cov \<Rightarrow>
               (case py_truediv (length selected) (length tcs) of
                  Inl e \<Rightarrow> Inl e
                | Inr penalty \<Rightarrow> Inr (alpha * cov - beta * penalty)))"

text \<open>\<^verbatim>\<open>testcase.py\<close>.\<close>

definition fitness :: "individual \<Rightarrow> test_case list \<Rightarrow> string fset \<Rightarrow> real \<Rightarrow> real \<Rightarrow> py_error + real" where
  "fitness ind tcs all_rules alpha beta =
     weigh rule_coverage (selected_if (\<lambda>bit. bit \<noteq> 0) ind tcs) tcs all_rules alpha beta"

text \<open>\<^verbatim>\<open>xacml_testcase_ga.py\<close>.\<close>

definition ga_fitness :: "individual \<Rightarrow> test_case list \<Rightarrow> string fset \<Rightarrow> real \<Rightarrow> real \<Rightarrow> py_error + real" where
  "ga_fitness ind tcs all_rules alpha beta =
     weigh rule_coverage (selected_if (\<lambda>bit. bit = 1) ind tcs) tcs all_rules alpha beta"

text \<open>\<^verbatim>\<open>xacml_test_optimization.py\<close>.\<close>

definition opt_fitness :: "individual \<Rightarrow> test_case list \<Rightarrow> string fset \<Rightarrow> real \<Rightarrow> real \<Rightarrow> py_error + real" where
  "opt_fitness ind tcs all_rules alpha beta =
     weigh rule_coverage_opt (selected_if (\<lambda>bit. bit = 1) ind tcs) tcs all_rules alpha beta"


section \<open>Genetic operators\<close>

text \<open>\<^verbatim>\<open>[random.randint(0, 1) for _ in range(n)]\<close>.\<close>

fun random_individual :: "rnd \<Rightarrow> nat \<Rightarrow> nat \<Rightarrow> py_error + (individual \<times> nat)" where
  "random_individual rnd 0 k = Inr ([], k)"
| "random_individual rnd (Suc n) k =
     (case randint rnd 0 1 k of
        Inl e \<Rightarrow> Inl e
      | Inr (b, k1) \<Rightarrow>
          (case random_individual rnd n k1 of
             Inl e \<Rightarrow> Inl e
           | Inr (bs, k2) \<Rightarrow> Inr (b # bs, k2)))"

text \<open>The initial population: \<open>pop_size\<close> random individuals of length \<open>n\<close>.\<close>

fun initial_population :: "rnd \<Rightarrow> nat \<Rightarrow> nat \<Rightarrow> nat \<Rightarrow> py_error + (individual list \<times> nat)" where
  "initial_population rnd n 0 k = Inr ([], k)"
| "initial_population rnd n (Suc pop_size) k =
     (case random_individual rnd n k of
        Inl e \<Rightarrow> Inl e
      | Inr (ind, k1) \<Rightarrow>
          (case initial_population rnd n pop_size k1 of
             Inl e \<Rightarrow> Inl e
           | Inr (pop, k2) \<Rightarrow> Inr (ind # pop, k2)))"

text \<open>\<^verbatim>\<open>[1 - b if random.random() < rate else b for b in ind]\<close>: one draw for each bit.\<close>

fun mutate :: "rnd \<Rightarrow> real \<Rightarrow> individual \<Rightarrow> nat \<Rightarrow> individual \<times> nat" where
  "mutate rnd rate [] k = ([], k)"
| "mutate rnd rate (b # bs) k =
     (let (r, k1) = random_float rnd k;
          b' = (if r < rate then 1 - b else b);
          (bs', k2) = mutate rnd rate bs k1
      in (b' # bs', k2))"

text \<open>
  \<^verbatim>\<open>point = random.randint(1, len(p1) - 1); return p1[:point] + p2[point:]\<close>. The cut
  point is at least 1 when \<^verbatim>\<open>randint\<close> returns, so the slices are \<open>take\<close> and \<open>drop\<close>.
\<close>

definition crossover :: "rnd \<Rightarrow> individual \<Rightarrow> individual \<Rightarrow> nat \<Rightarrow> py_error + (individual \<times> nat)" where
  "crossover rnd p1 p2 k =
     (case randint rnd 1 (int (length p1) - 1) k of
        Inl e \<Rightarrow> Inl e
      | Inr (point, k1) \<Rightarrow> Inr (take (nat point) p1 @ drop (nat point) p2, k1))"


section \<open>Ordering a population by a key\<close>

text \<open>
  \<^verbatim>\<open>sorted(xs, key=f, reverse=True)\<close> computes the key of every element in order, an
  exception of \<open>f\<close> ending the call, and sorts stably in descending order: elements with
  equal keys keep their order. CPython does it by reversing, sorting and reversing again.
\<close>

fun keyed :: "('a \<Rightarrow> py_error + real) \<Rightarrow> 'a list \<Rightarrow> py_error + (real \<times> 'a) list" where
  "keyed key [] = Inr []"
| "keyed key (x # xs) =
     (case key x of
        Inl e \<Rightarrow> Inl e
      | Inr kx \<Rightarrow>
          (case keyed key xs of
             Inl e \<Rightarrow> Inl e
           | Inr kxs \<Rightarrow> Inr ((kx, x) # kxs)))"

definition sorted_reverse :: "('a \<Rightarrow> py_error + real) \<Rightarrow> 'a list \<Rightarrow> py_error + 'a list" where
  "sorted_reverse key xs =
     (case keyed key xs of
        Inl e \<Rightarrow> Inl e
      | Inr kxs \<Rightarrow> Inr (map snd (rev (sort_key fst (rev kxs)))))"

text \<open>
  \<^verbatim>\<open>max(xs, key=f)\<close> raises \<^verbatim>\<open>ValueError\<close> on an empty list, and otherwise keeps the
  first element and replaces it by a later one only when the later key is strictly greater.
\<close>

fun max_scan :: "('a \<Rightarrow> py_error + real) \<Rightarrow> 'a list \<Rightarrow> 'a \<Rightarrow> real \<Rightarrow> py_error + 'a" where
  "max_scan key [] best kb = Inr best"
| "max_scan key (y # ys) best kb =
     (case key y of
        Inl e \<Rightarrow> Inl e
      | Inr ky \<Rightarrow> if kb < ky then max_scan key ys y ky else max_scan key ys best kb)"

definition max_by :: "('a \<Rightarrow> py_error + real) \<Rightarrow> 'a list \<Rightarrow> py_error + 'a" where
  "max_by key xs =
     (case xs of
        [] \<Rightarrow> Inl ValueError
      | x # ys \<Rightarrow> (case key x of Inl e \<Rightarrow> Inl e | Inr kx \<Rightarrow> max_scan key ys x kx))"


section \<open>The genetic algorithm of \<^verbatim>\<open>testcase.py\<close>\<close>

text \<open>
  The body of the loop \<^verbatim>\<open>while len(next_gen) < pop_size\<close>: two parents sampled from
  the first ten of the sorted population, a cut point, the child, its mutation with rate
  0.05.
\<close>

definition make_child :: "rnd \<Rightarrow> individual list \<Rightarrow> nat \<Rightarrow> py_error + (individual \<times> nat)" where
  "make_child rnd population k =
     (case random_sample2 rnd (take 10 population) k of
        Inl e \<Rightarrow> Inl e
      | Inr ((p1, p2), k1) \<Rightarrow>
          (case randint rnd 1 (int (length p1) - 1) k1 of
             Inl e \<Rightarrow> Inl e
           | Inr (point, k2) \<Rightarrow>
               Inr (mutate rnd (5 / 100) (take (nat point) p1 @ drop (nat point) p2) k2)))"

function breed ::
  "rnd \<Rightarrow> individual list \<Rightarrow> nat \<Rightarrow> individual list \<Rightarrow> nat \<Rightarrow> py_error + (individual list \<times> nat)" where
  "breed rnd population pop_size next_gen k =
     (if length next_gen < pop_size then
        (case make_child rnd population k of
           Inl e \<Rightarrow> Inl e
         | Inr (child, k1) \<Rightarrow> breed rnd population pop_size (next_gen @ [child]) k1)
      else Inr (next_gen, k))"
  by pat_completeness auto
termination
  by (relation "measure (\<lambda>(rnd, population, pop_size, next_gen, k). pop_size - length next_gen)") auto

declare breed.simps [simp del]

text \<open>The loop \<^verbatim>\<open>for _ in range(generations)\<close>.\<close>

fun evolve ::
  "rnd \<Rightarrow> test_case list \<Rightarrow> string fset \<Rightarrow> nat \<Rightarrow> nat \<Rightarrow> individual list \<Rightarrow> nat
     \<Rightarrow> py_error + (individual list \<times> nat)" where
  "evolve rnd tcs all_rules pop_size 0 population k = Inr (population, k)"
| "evolve rnd tcs all_rules pop_size (Suc generations) population k =
     (case sorted_reverse (\<lambda>ind. fitness ind tcs all_rules alpha_default beta_default) population of
        Inl e \<Rightarrow> Inl e
      | Inr ranked \<Rightarrow>
          (case breed rnd ranked pop_size (take 2 ranked) k of
             Inl e \<Rightarrow> Inl e
           | Inr (next_gen, k1) \<Rightarrow> evolve rnd tcs all_rules pop_size generations next_gen k1))"

text \<open>\<^verbatim>\<open>population[0]\<close> raises \<^verbatim>\<open>IndexError\<close> on an empty population.\<close>

definition first_of :: "'a list \<Rightarrow> py_error + 'a" where
  "first_of xs = (case xs of [] \<Rightarrow> Inl IndexError | x # ys \<Rightarrow> Inr x)"

definition genetic_algorithm ::
  "rnd \<Rightarrow> test_case list \<Rightarrow> string fset \<Rightarrow> nat \<Rightarrow> nat \<Rightarrow> py_error + individual" where
  "genetic_algorithm rnd tcs all_rules pop_size generations =
     (case initial_population rnd (length tcs) pop_size 0 of
        Inl e \<Rightarrow> Inl e
      | Inr (population, k) \<Rightarrow>
          (case evolve rnd tcs all_rules pop_size generations population k of
             Inl e \<Rightarrow> Inl e
           | Inr (final, k1) \<Rightarrow> first_of final))"


section \<open>The genetic algorithm of \<^verbatim>\<open>xacml_testcase_ga.py\<close> and \<^verbatim>\<open>xacml_test_optimization.py\<close>\<close>

text \<open>
  The two scripts have the same \<^verbatim>\<open>select_best\<close>, \<^verbatim>\<open>crossover\<close>, \<^verbatim>\<open>mutate\<close> and
  \<^verbatim>\<open>genetic_algorithm\<close>; they differ in the \<^verbatim>\<open>rule_coverage\<close> that \<^verbatim>\<open>fitness\<close>
  calls, so the fitness is the parameter \<open>fit\<close>. The body of the inner loop
  \<^verbatim>\<open>for _ in range(pop_size)\<close> builds one child from the best individual chosen twice,
  mutated with the default rate 0.1.
\<close>

definition select_best :: "(individual \<Rightarrow> py_error + real) \<Rightarrow> individual list \<Rightarrow> py_error + individual" where
  "select_best fit population = max_by fit population"

definition sb_child ::
  "rnd \<Rightarrow> (individual \<Rightarrow> py_error + real) \<Rightarrow> individual list \<Rightarrow> nat \<Rightarrow> py_error + (individual \<times> nat)" where
  "sb_child rnd fit population k =
     (case select_best fit population of
        Inl e \<Rightarrow> Inl e
      | Inr p1 \<Rightarrow>
          (case select_best fit population of
             Inl e \<Rightarrow> Inl e
           | Inr p2 \<Rightarrow>
               (case crossover rnd p1 p2 k of
                  Inl e \<Rightarrow> Inl e
                | Inr (c, k1) \<Rightarrow> Inr (mutate rnd (1 / 10) c k1))))"

fun new_population ::
  "rnd \<Rightarrow> (individual \<Rightarrow> py_error + real) \<Rightarrow> individual list \<Rightarrow> nat \<Rightarrow> nat
     \<Rightarrow> py_error + (individual list \<times> nat)" where
  "new_population rnd fit population 0 k = Inr ([], k)"
| "new_population rnd fit population (Suc m) k =
     (case sb_child rnd fit population k of
        Inl e \<Rightarrow> Inl e
      | Inr (child, k1) \<Rightarrow>
          (case new_population rnd fit population m k1 of
             Inl e \<Rightarrow> Inl e
           | Inr (rest, k2) \<Rightarrow> Inr (child # rest, k2)))"

fun sb_evolve ::
  "rnd \<Rightarrow> (individual \<Rightarrow> py_error + real) \<Rightarrow> nat \<Rightarrow> nat \<Rightarrow> individual list \<Rightarrow> nat
     \<Rightarrow> py_error + (individual list \<times> nat)" where
  "sb_evolve rnd fit pop_size 0 population k = Inr (population, k)"
| "sb_evolve rnd fit pop_size (Suc generations) population k =
     (case new_population rnd fit population pop_size k of
        Inl e \<Rightarrow> Inl e
      | Inr (next_population, k1) \<Rightarrow> sb_evolve rnd fit pop_size generations next_population k1)"

definition sb_genetic_algorithm ::
  "rnd \<Rightarrow> (individual \<Rightarrow> py_error + real) \<Rightarrow> nat \<Rightarrow> nat \<Rightarrow> nat \<Rightarrow> py_error + individual" where
  "sb_genetic_algorithm rnd fit n pop_size generations =
     (case initial_population rnd n pop_size 0 of
        Inl e \<Rightarrow> Inl e
      | Inr (population, k) \<Rightarrow>
          (case sb_evolve rnd fit pop_size generations population k of
             Inl e \<Rightarrow> Inl e
           | Inr (final, k1) \<Rightarrow> select_best fit final))"

definition ga_genetic_algorithm ::
  "rnd \<Rightarrow> test_case list \<Rightarrow> string fset \<Rightarrow> nat \<Rightarrow> nat \<Rightarrow> py_error + individual" where
  "ga_genetic_algorithm rnd tcs all_rules pop_size generations =
     sb_genetic_algorithm rnd (\<lambda>ind. ga_fitness ind tcs all_rules alpha_default beta_default)
       (length tcs) pop_size generations"

definition opt_genetic_algorithm ::
  "rnd \<Rightarrow> test_case list \<Rightarrow> string fset \<Rightarrow> nat \<Rightarrow> nat \<Rightarrow> py_error + individual" where
  "opt_genetic_algorithm rnd tcs all_rules pop_size generations =
     sb_genetic_algorithm rnd (\<lambda>ind. opt_fitness ind tcs all_rules alpha_default beta_default)
       (length tcs) pop_size generations"



section \<open>Inputs of the evaluated runs\<close>

text \<open>A run whose first draws are the listed ones and whose later draws are 0.\<close>

definition tape_of :: "nat list \<Rightarrow> rnd" where
  "tape_of xs k = (if k < length xs then xs ! k else 0)"

definition two_case_pool :: "test_case list" where
  "two_case_pool = [manager_case, guest_case]"

definition both_rules :: "string fset" where
  "both_rules = {|''rule-1'', ''rule-2''|}"

text \<open>
  Draws 0 to 5 give the initial population \<open>[1,0]\<close>, \<open>[0,1]\<close>, \<open>[0,0]\<close>; draws 6 and 7
  sample the parents \<open>[1,0]\<close> and \<open>[0,1]\<close>; draw 8 gives the cut point 1; draws 9 and 10
  are \<open>0.5\<close>, no mutation.
\<close>

definition late_child_tape :: rnd where
  "late_child_tape = tape_of [1, 0, 0, 1, 0, 0, 0, 0, 0, 2 ^ 52, 2 ^ 52]"

text \<open>
  Draws 0 and 1 give the individual \<open>[1,1]\<close>; draw 2 gives the cut point 1; draws 3 and 4
  are \<open>0.0\<close>, both bits mutate.
\<close>

definition flip_tape :: rnd where
  "flip_tape = tape_of [1, 1]"

text \<open>Draws 0 to 3 give the initial population \<open>[0,0]\<close>, \<open>[1,1]\<close>.\<close>

definition head_tape :: rnd where
  "head_tape = tape_of [0, 0, 1, 1]"


section \<open>Coverage\<close>

lemma covered_by_fold:
  "fold (\<lambda>tc covered. covered |\<union>| covers tc) tcs A = A |\<union>| ffUnion (covers |`| fset_of_list tcs)"
  by (induction tcs arbitrary: A) auto

lemma covered_by_eq: "covered_by tcs = ffUnion (covers |`| fset_of_list tcs)"
  by (simp add: covered_by_def covered_by_fold)

lemma fset_covered_by: "fset (covered_by tcs) = (\<Union>tc \<in> set tcs. fset (covers tc))"
  by (auto simp: covered_by_eq fset_of_list.rep_eq ffUnion.rep_eq)

lemma covered_by_mono: "set S1 \<subseteq> set S2 \<Longrightarrow> covered_by S1 |\<subseteq>| covered_by S2"
  unfolding covered_by_eq
  by (auto simp: fset_of_list.rep_eq ffUnion.rep_eq less_eq_fset.rep_eq)

lemma fcard_ratio_le_one: "A |\<subseteq>| B \<Longrightarrow> B \<noteq> {||} \<Longrightarrow> real (fcard A) / real (fcard B) \<le> 1"
proof -
  assume sub: "A |\<subseteq>| B" and ne: "B \<noteq> {||}"
  have "fcard A \<le> fcard B" using sub by (rule fcard_mono)
  moreover have "0 < fcard B" using ne by (metis fcard_0_eq neq0_conv)
  ultimately show ?thesis by simp
qed

text \<open>
  C1, as the code has it. With no rule identifiers \<^verbatim>\<open>rule_coverage\<close> of
  \<^verbatim>\<open>testcase.py\<close> divides by zero, also for the empty collection, and a vector that
  covers two identifiers scores 2 against a rule set holding one of them.
\<close>

theorem rule_coverage_faults_counterexample:
  "rule_coverage [] {||} = Inl ZeroDivisionError
   \<and> rule_coverage_opt [both_case] {||} = Inl ZeroDivisionError
   \<and> rule_coverage [both_case] {|''rule-1''|} = Inr 2"
  by (simp add: rule_coverage_def rule_coverage_opt_def py_truediv_def covered_by_def both_case_def
      fcard_finsert_if fcard_fempty)

text \<open>
  C1, amended. For a non-empty set of rule identifiers, \<^verbatim>\<open>rule_coverage\<close> returns the
  size of the union of the vectors' covers sets divided by the number of rule identifiers;
  the value is at least 0, at most 1 when every covered identifier is a rule identifier, and
  0 for the empty collection. For the empty set of rule identifiers the division raises
  \<^verbatim>\<open>ZeroDivisionError\<close>; the variant of \<^verbatim>\<open>xacml_test_optimization.py\<close> returns 0 for
  the empty collection before dividing and agrees with the other one everywhere else.
\<close>

theorem rule_coverage_value:
  "(all_rules \<noteq> {||} \<longrightarrow>
      rule_coverage tcs all_rules
        = Inr (real (fcard (ffUnion (covers |`| fset_of_list tcs))) / real (fcard all_rules))
      \<and> 0 \<le> real (fcard (ffUnion (covers |`| fset_of_list tcs))) / real (fcard all_rules)
      \<and> (ffUnion (covers |`| fset_of_list tcs) |\<subseteq>| all_rules \<longrightarrow>
            real (fcard (ffUnion (covers |`| fset_of_list tcs))) / real (fcard all_rules) \<le> 1)
      \<and> rule_coverage [] all_rules = Inr 0)
   \<and> rule_coverage tcs {||} = Inl ZeroDivisionError
   \<and> rule_coverage_opt [] all_rules = Inr 0
   \<and> (tcs \<noteq> [] \<longrightarrow> rule_coverage_opt tcs all_rules = rule_coverage tcs all_rules)"
proof -
  have a: "rule_coverage tcs all_rules
        = Inr (real (fcard (ffUnion (covers |`| fset_of_list tcs))) / real (fcard all_rules))"
    if "all_rules \<noteq> {||}"
    using that by (simp add: rule_coverage_def py_truediv_def covered_by_eq)
  have b: "real (fcard (ffUnion (covers |`| fset_of_list tcs))) / real (fcard all_rules) \<le> 1"
    if "all_rules \<noteq> {||}" "ffUnion (covers |`| fset_of_list tcs) |\<subseteq>| all_rules"
    using that by (simp add: fcard_ratio_le_one)
  have c: "rule_coverage [] all_rules = Inr 0" if "all_rules \<noteq> {||}"
    using that by (simp add: rule_coverage_def py_truediv_def covered_by_def fcard_fempty)
  have d: "rule_coverage tcs {||} = Inl ZeroDivisionError"
    by (simp add: rule_coverage_def py_truediv_def fcard_fempty)
  have e: "rule_coverage_opt [] all_rules = Inr 0"
    by (simp add: rule_coverage_opt_def)
  have f: "rule_coverage_opt tcs all_rules = rule_coverage tcs all_rules" if "tcs \<noteq> []"
    using that by (simp add: rule_coverage_opt_def rule_coverage_def)
  show ?thesis using a b c d e f by simp
qed

theorem rule_coverage_value_witness:
  "rule_coverage [manager_case] {|''rule-1'', ''rule-2''|} = Inr (1 / 2)
   \<and> rule_coverage [] {|''rule-1'', ''rule-2''|} = Inr 0
   \<and> rule_coverage_opt [manager_case] {|''rule-1'', ''rule-2''|} = Inr (1 / 2)"
  using rule_coverage_value [of "{|''rule-1'', ''rule-2''|}" "[manager_case]"]
  by (simp add: manager_case_def fcard_finsert_if fcard_fempty)

text \<open>
  C8. For suites \<open>S1\<close> and \<open>S2\<close> with every vector of \<open>S1\<close> in \<open>S2\<close>, and a non-empty
  set of rule identifiers, both coverages are defined and the coverage of \<open>S1\<close> is at most
  the coverage of \<open>S2\<close>; \<open>S2\<close> may be the full candidate pool.
\<close>

theorem coverage_monotone:
  "all_rules \<noteq> {||} \<Longrightarrow> set S1 \<subseteq> set S2 \<Longrightarrow>
     (\<exists>c1 c2. rule_coverage S1 all_rules = Inr c1 \<and> rule_coverage S2 all_rules = Inr c2 \<and> c1 \<le> c2)"
  by (simp add: rule_coverage_def py_truediv_def fcard_mono covered_by_mono divide_right_mono)

theorem coverage_monotone_witness:
  "{|''rule-1'', ''rule-2''|} \<noteq> {||} \<and> set [guest_case] \<subseteq> set [manager_case, guest_case]
   \<and> rule_coverage [guest_case] {|''rule-1'', ''rule-2''|} = Inr (1 / 2)
   \<and> rule_coverage [manager_case, guest_case] {|''rule-1'', ''rule-2''|} = Inr 1"
  using coverage_monotone [of "{|''rule-1'', ''rule-2''|}" "[guest_case]" "[manager_case, guest_case]"]
  by (simp add: rule_coverage_def py_truediv_def covered_by_def manager_case_def guest_case_def
      fcard_finsert_if fcard_fempty)


section \<open>Attribute domains\<close>

lemma map_of_setdefault:
  "map_of (setdefault d k v) = (case map_of d k of None \<Rightarrow> (map_of d)(k \<mapsto> v) | Some w \<Rightarrow> map_of d)"
  by (auto simp: setdefault_def fun_eq_iff map_add_def split: option.splits)

lemma map_of_add_value:
  "map_of (add_value d attr v) b =
     map_option (\<lambda>dm. if b = attr then dm\<lparr>dvalues := finsert v (dvalues dm)\<rparr> else dm) (map_of d b)"
  by (induction d) (auto simp: add_value_def)

lemma map_of_register_condition:
  "map_of (register_condition (a, c, v) d) =
     (map_of d)(a \<mapsto> (case map_of d a of
                          None \<Rightarrow> \<lparr>category = c, dvalues = {|v|}\<rparr>
                        | Some dm \<Rightarrow> dm\<lparr>dvalues := finsert v (dvalues dm)\<rparr>))"
  by (auto simp: register_condition_def map_of_add_value map_of_setdefault fun_eq_iff
           option.map_ident split: option.splits)




lemma collect_domains_conv:
  "fold (\<lambda>r d. fold register_condition (conditions r) d) rules d
     = fold register_condition (concat (map conditions rules)) d"
  by (induction rules arbitrary: d) simp_all

lemma map_of_fold_register:
  "map_of (fold register_condition conds d) a =
     (case map_of d a of
        Some dm \<Rightarrow> Some (dm\<lparr>dvalues := dvalues dm |\<union>| values_for conds a\<rparr>)
      | None \<Rightarrow> (case first_category conds a of
                   None \<Rightarrow> None
                 | Some c \<Rightarrow> Some \<lparr>category = c, dvalues = values_for conds a\<rparr>))"
proof (induction conds arbitrary: d)
  case Nil
  then show ?case
    by (simp add: values_for_def first_category_def split: option.splits)
next
  case (Cons x xs)
  obtain a' c v where x: "x = (a', c, v)" by (cases x)
  show ?case
    by (auto simp: x Cons.IH map_of_register_condition values_for_def first_category_def
             split: option.splits)
qed

lemma map_of_collect_domains:
  "map_of (collect_domains rules) a =
     (case first_category (all_conditions rules) a of
        None \<Rightarrow> None
      | Some c \<Rightarrow> Some \<lparr>category = c, dvalues = values_for (all_conditions rules) a\<rparr>)"
  unfolding all_conditions_def
  by (simp add: collect_domains_def collect_domains_conv map_of_fold_register)



lemma map_of_build:
  "map_of (build_attribute_domains rules) a =
     (case first_category (all_conditions rules) a of
        None \<Rightarrow> None
      | Some c \<Rightarrow> Some \<lparr>category = c, dvalues = finsert ''UNKNOWN'' (values_for (all_conditions rules) a)\<rparr>)"
  by (simp add: build_attribute_domains_def map_of_map map_of_collect_domains split: option.splits)

lemma first_category_Some:
  "(a, c, v) \<in> set conds \<Longrightarrow> \<exists>c0. first_category conds a = Some c0"
  by (induction conds) (auto simp: first_category_def)

lemma values_for_iff: "v |\<in>| values_for conds a \<longleftrightarrow> (\<exists>c. (a, c, v) \<in> set conds)"
  by (force simp: values_for_def fset_of_list.rep_eq)

lemma first_category_same:
  "first_category conds a = Some c0 \<Longrightarrow> \<exists>v0. (a, c0, v0) \<in> set conds"
  by (induction conds) (auto simp: first_category_def split: if_splits)

lemma two_rule_domains:
  "build_attribute_domains (two_rule_policy c1 c2)
     = [(''role'', \<lparr>category = c1, dvalues = {|''manager'', ''guest'', ''UNKNOWN''|}\<rparr>)]"
  by (auto simp: two_rule_policy_def build_attribute_domains_def collect_domains_def
      register_condition_def setdefault_def add_value_def)



text \<open>
  C3, as the code has it. The Cartesian product of no value sets is the one empty tuple, so
  the generator builds a test vector for the empty rule list: the pool is not empty.
\<close>

theorem empty_policy_pool_counterexample:
  "length (generate_test_cases sorted_order []) = 1"
  by (simp add: generate_test_cases_def build_attribute_domains_def collect_domains_def Let_def)

text \<open>
  C3, amended. For the empty rule list \<^verbatim>\<open>build_attribute_domains\<close> returns the empty
  mapping, and \<^verbatim>\<open>generate_test_cases\<close> returns one test vector: id 1, the empty
  assignment, the empty covers set.
\<close>

theorem empty_policy_pool:
  "build_attribute_domains [] = []
   \<and> generate_test_cases list_of [] = [\<lparr>tc_id = 1, attributes = [], covers = {||}\<rparr>]"
  by (simp add: generate_test_cases_def build_attribute_domains_def collect_domains_def
      build_assignment_def compute_covers_def)




text \<open>
  C7, as the code has it. \<^verbatim>\<open>setdefault\<close> keeps the category of the first condition on
  an attribute: with \<open>role\<close> first in category \<open>subject\<close> and then in category
  \<open>resource\<close>, the domain of \<open>role\<close> has category \<open>subject\<close>, not the category of
  the second condition.
\<close>

theorem category_first_writer_counterexample:
  "(''role'', ''resource'', ''guest'') \<in> set (all_conditions (two_rule_policy ''subject'' ''resource''))
   \<and> map_option category (map_of (build_attribute_domains (two_rule_policy ''subject'' ''resource'')) ''role'')
       = Some ''subject''"
proof -
  have a: "(''role'', ''resource'', ''guest'') \<in> set (all_conditions (two_rule_policy ''subject'' ''resource''))"
    by (simp add: all_conditions_def two_rule_policy_def)
  have b: "map_option category (map_of (build_attribute_domains (two_rule_policy ''subject'' ''resource'')) ''role'')
       = Some ''subject''"
    by (simp add: two_rule_domains)
  show ?thesis using a b by (rule conjI)
qed

text \<open>
  C7, amended. For every rule list and every condition \<open>(a, c, v)\<close> of any rule, after
  \<^verbatim>\<open>build_attribute_domains\<close> the attribute \<open>a\<close> has a domain, \<open>v\<close> is one of its values,
  and its category is the category of the first condition on \<open>a\<close> in rule order; that is
  \<open>c\<close> when all conditions on \<open>a\<close> carry the same category.
\<close>

theorem domain_completeness:
  "(a, c, v) \<in> set (all_conditions rules) \<Longrightarrow>
     (\<exists>dm. map_of (build_attribute_domains rules) a = Some dm
        \<and> v |\<in>| dvalues dm
        \<and> Some (category dm) = first_category (all_conditions rules) a
        \<and> ((\<forall>c' v'. (a, c', v') \<in> set (all_conditions rules) \<longrightarrow> c' = c) \<longrightarrow> category dm = c))"
proof -
  assume mem: "(a, c, v) \<in> set (all_conditions rules)"
  then obtain c0 where c0: "first_category (all_conditions rules) a = Some c0"
    using first_category_Some by blast
  then obtain v0 where "(a, c0, v0) \<in> set (all_conditions rules)"
    using first_category_same by blast
  then show ?thesis
    using mem c0 by (auto simp: map_of_build values_for_iff)
qed

theorem domain_completeness_witness:
  "(''role'', ''subject'', ''guest'') \<in> set (all_conditions (two_rule_policy ''subject'' ''subject''))
   \<and> (\<exists>dm. map_of (build_attribute_domains (two_rule_policy ''subject'' ''subject'')) ''role'' = Some dm
        \<and> ''guest'' |\<in>| dvalues dm \<and> category dm = ''subject'')"
proof -
  have mem: "(''role'', ''subject'', ''guest'') \<in> set (all_conditions (two_rule_policy ''subject'' ''subject''))"
    by (simp add: all_conditions_def two_rule_policy_def)
  have same: "\<forall>c' v'. (''role'', c', v') \<in> set (all_conditions (two_rule_policy ''subject'' ''subject''))
                \<longrightarrow> c' = ''subject''"
    by (simp add: all_conditions_def two_rule_policy_def)
  show ?thesis using domain_completeness [OF mem] mem same by blast
qed



section \<open>Candidate generation\<close>

lemma product_lists_single: "product_lists [l] = map (\<lambda>x. [x]) l"
  by (induction l) simp_all

lemma make_cases_view:
  "map (\<lambda>tc. (attributes tc, covers tc)) (make_cases rules doms combos n)
     = map (\<lambda>comb. (build_assignment doms comb, compute_covers rules (build_assignment doms comb))) combos"
  by (induction combos arbitrary: n) (simp_all add: Let_def)

lemma two_rule_covers:
  "compute_covers (two_rule_policy c1 c2) [(''role'', (v, c))] = role_covers v"
  by (auto simp: compute_covers_def two_rule_policy_def rule_matches_def get_value_def role_covers_def)

lemma two_rule_pool_view:
  "map (\<lambda>tc. (attributes tc, covers tc)) (generate_test_cases list_of (two_rule_policy c1 c2))
     = map (\<lambda>v. ([(''role'', (v, c1))], role_covers v)) (list_of ''role'' {|''manager'', ''guest'', ''UNKNOWN''|})"
  by (simp add: generate_test_cases_def two_rule_domains product_lists_single make_cases_view
      build_assignment_def two_rule_covers o_def)

text \<open>
  C9. The policy \<open>rule-1: role = manager, Permit\<close>, \<open>rule-2: role = guest, Deny\<close>,
  with any categories and any listing order of the value set. The domain of \<open>role\<close> is
  \<open>{manager, guest, UNKNOWN}\<close>; the generator returns three vectors, one for each value of
  \<open>role\<close>; the vector with \<open>manager\<close> covers \<open>{rule-1}\<close>, the one with \<open>guest\<close>
  covers \<open>{rule-2}\<close>, the one with \<open>UNKNOWN\<close> covers nothing; the coverage of the pool
  against both rule identifiers is 1.
\<close>

theorem two_rule_scenario:
  assumes "distinct (list_of ''role'' {|''manager'', ''guest'', ''UNKNOWN''|})"
    and "set (list_of ''role'' {|''manager'', ''guest'', ''UNKNOWN''|}) = {''manager'', ''guest'', ''UNKNOWN''}"
  shows "build_attribute_domains (two_rule_policy c1 c2)
           = [(''role'', \<lparr>category = c1, dvalues = {|''manager'', ''guest'', ''UNKNOWN''|}\<rparr>)]
    \<and> length (generate_test_cases list_of (two_rule_policy c1 c2)) = 3
    \<and> set (map (\<lambda>tc. get_value (attributes tc) ''role'') (generate_test_cases list_of (two_rule_policy c1 c2)))
         = {''manager'', ''guest'', ''UNKNOWN''}
    \<and> (\<forall>tc \<in> set (generate_test_cases list_of (two_rule_policy c1 c2)).
          (get_value (attributes tc) ''role'' = ''manager'' \<longrightarrow> covers tc = {|''rule-1''|})
        \<and> (get_value (attributes tc) ''role'' = ''guest'' \<longrightarrow> covers tc = {|''rule-2''|})
        \<and> (get_value (attributes tc) ''role'' = ''UNKNOWN'' \<longrightarrow> covers tc = {||}))
    \<and> rule_coverage (generate_test_cases list_of (two_rule_policy c1 c2)) {|''rule-1'', ''rule-2''|} = Inr 1"
proof -
  let ?pool = "generate_test_cases list_of (two_rule_policy c1 c2)"
  let ?l = "list_of ''role'' {|''manager'', ''guest'', ''UNKNOWN''|}"
  have view: "map (\<lambda>tc. (attributes tc, covers tc)) ?pool = map (\<lambda>v. ([(''role'', (v, c1))], role_covers v)) ?l"
    by (rule two_rule_pool_view)
  have "length ?pool = length ?l"
    using arg_cong[OF view, of length] by simp
  also have "\<dots> = card (set ?l)"
    using assms(1) by (simp add: distinct_card)
  also have "\<dots> = 3"
    by (simp add: assms(2))
  finally have len: "length ?pool = 3" .
  have each: "\<exists>v \<in> set ?l. attributes tc = [(''role'', (v, c1))] \<and> covers tc = role_covers v"
    if "tc \<in> set ?pool" for tc
  proof -
    from that have "(attributes tc, covers tc) \<in> set (map (\<lambda>tc. (attributes tc, covers tc)) ?pool)"
      by force
    then show ?thesis unfolding view by auto
  qed
  have conv: "\<exists>tc \<in> set ?pool. attributes tc = [(''role'', (v, c1))] \<and> covers tc = role_covers v"
    if "v \<in> set ?l" for v
  proof -
    from that have "([(''role'', (v, c1))], role_covers v) \<in> set (map (\<lambda>tc. (attributes tc, covers tc)) ?pool)"
      unfolding view by force
    then show ?thesis by auto
  qed
  have roles: "set (map (\<lambda>tc. get_value (attributes tc) ''role'') ?pool) = {''manager'', ''guest'', ''UNKNOWN''}"
  proof -
    have "map (\<lambda>tc. get_value (attributes tc) ''role'') ?pool
            = map (\<lambda>p. get_value (fst p) ''role'') (map (\<lambda>tc. (attributes tc, covers tc)) ?pool)"
      by (simp add: o_def)
    also have "\<dots> = ?l"
      unfolding view by (simp add: o_def get_value_def)
    finally show ?thesis by (simp add: assms(2))
  qed
  have cov: "\<forall>tc \<in> set ?pool.
          (get_value (attributes tc) ''role'' = ''manager'' \<longrightarrow> covers tc = {|''rule-1''|})
        \<and> (get_value (attributes tc) ''role'' = ''guest'' \<longrightarrow> covers tc = {|''rule-2''|})
        \<and> (get_value (attributes tc) ''role'' = ''UNKNOWN'' \<longrightarrow> covers tc = {||})"
    using each by (fastforce simp: get_value_def role_covers_def)
  have "fset (covered_by ?pool) = (\<Union>v \<in> set ?l. fset (role_covers v))"
    unfolding fset_covered_by using each conv by fastforce
  also have "\<dots> = {''rule-1'', ''rule-2''}"
    by (auto simp: assms(2) role_covers_def)
  finally have "covered_by ?pool = {|''rule-1'', ''rule-2''|}"
    by (simp add: fset_eq_iff fset_cong[symmetric] flip: fset_inject)
  then have rc: "rule_coverage ?pool {|''rule-1'', ''rule-2''|} = Inr 1"
    by (simp add: rule_coverage_def py_truediv_def fcard_finsert_if fcard_fempty)
  show ?thesis using two_rule_domains len roles cov rc by blast
qed

theorem two_rule_scenario_witness:
  "distinct (sorted_order ''role'' {|''manager'', ''guest'', ''UNKNOWN''|})
   \<and> length (generate_test_cases sorted_order (two_rule_policy ''subject'' ''subject'')) = 3
   \<and> rule_coverage (generate_test_cases sorted_order (two_rule_policy ''subject'' ''subject''))
         {|''rule-1'', ''rule-2''|} = Inr 1"
proof -
  have d: "distinct (sorted_order ''role'' {|''manager'', ''guest'', ''UNKNOWN''|})"
    by (simp add: sorted_order_def sorted_list_of_fset.rep_eq)
  have s: "set (sorted_order ''role'' {|''manager'', ''guest'', ''UNKNOWN''|}) = {''manager'', ''guest'', ''UNKNOWN''}"
    by (auto simp: sorted_order_def sorted_list_of_fset.rep_eq)
  show ?thesis
    using two_rule_scenario [of sorted_order "''subject''" "''subject''", OF d s] d by blast
qed


section \<open>One candidate per rule\<close>

lemma dfs_loop_snd: "snd (dfs_loop rs n) = n + int (length rs)"
  by (induction rs arbitrary: n) (simp_all add: split_beta)

lemma dfs_loop_length: "length (fst (dfs_loop rs n)) = length rs"
  by (induction rs arbitrary: n) (simp_all add: split_beta)

lemma dfs_loop_nth:
  "i < length rs \<Longrightarrow> fst (dfs_loop rs n) ! i =
     \<lparr>tc_id = n + int i, attributes = rule_assignment (conditions (rs ! i)), covers = {|rule_id (rs ! i)|}\<rparr>"
proof (induction rs arbitrary: n i)
  case Nil
  then show ?case by simp
next
  case (Cons r rs)
  show ?case
  proof (cases i)
    case 0
    then show ?thesis by (simp add: split_beta)
  next
    case (Suc j)
    with Cons.prems have "j < length rs" by simp
    from Cons.IH[OF this, of "n + 1"] Suc show ?thesis
      by (simp add: split_beta add.assoc)
  qed
qed

lemma rule_assignment_fold:
  "map_of (fold (\<lambda>(a, c, v) attrs. AList.update a (v, c) attrs) conds acc) =
     map_of acc ++ map_of (rev (map (\<lambda>(a, c, v). (a, (v, c))) conds))"
proof (induction conds arbitrary: acc)
  case Nil
  then show ?case by simp
next
  case (Cons x xs)
  obtain a c v where x: "x = (a, c, v)" by (cases x)
  show ?case
    by (auto simp: x Cons.IH update_conv' fun_eq_iff map_add_def split: option.splits)
qed

lemma rule_assignment_map_of:
  "map_of (rule_assignment conds) = map_of (rev (map (\<lambda>(a, c, v). (a, (v, c))) conds))"
  by (simp add: rule_assignment_def rule_assignment_fold)

text \<open>
  C10. For every rule list \<^verbatim>\<open>dfs_generate_test_cases\<close> returns one test case per rule and
  one more, with the ids 1, 2, ... in rule order. The case of the i-th rule has the covers
  set holding that rule's id, whatever its assignment is, and its assignment maps an
  attribute to the value and category of the last condition of the rule on that attribute.
  The last case has the empty covers set.
\<close>

theorem dfs_generate_shape:
  "length (dfs_generate_test_cases rules) = length rules + 1
   \<and> map tc_id (dfs_generate_test_cases rules) = map int [1..<length rules + 2]
   \<and> (\<forall>i < length rules.
        covers (dfs_generate_test_cases rules ! i) = {|rule_id (rules ! i)|}
        \<and> map_of (attributes (dfs_generate_test_cases rules ! i))
            = map_of (rev (map (\<lambda>(a, c, v). (a, (v, c))) (conditions (rules ! i)))))
   \<and> covers (last (dfs_generate_test_cases rules)) = {||}"
proof -
  obtain tcs m where lp: "dfs_loop rules 1 = (tcs, m)" by (cases "dfs_loop rules 1")
  have len: "length tcs = length rules" using dfs_loop_length[of rules 1] lp by simp
  have m: "m = 1 + int (length rules)" using dfs_loop_snd[of rules 1] lp by simp
  have nth: "\<And>i. i < length rules \<Longrightarrow> tcs ! i =
     \<lparr>tc_id = 1 + int i, attributes = rule_assignment (conditions (rules ! i)), covers = {|rule_id (rules ! i)|}\<rparr>"
    using dfs_loop_nth[of _ rules 1] lp by simp
  have res: "dfs_generate_test_cases rules =
      tcs @ [\<lparr>tc_id = m, attributes = [(''role'', (''unknown'', ''subject''))], covers = {||}\<rparr>]"
    by (simp add: dfs_generate_test_cases_def lp)
  have ids: "map tc_id (dfs_generate_test_cases rules) = map int [1..<length rules + 2]"
  proof (rule nth_equalityI)
    show "length (map tc_id (dfs_generate_test_cases rules)) = length (map int [1..<length rules + 2])"
      by (simp add: res len del: upt_Suc)
  next
    fix i assume "i < length (map tc_id (dfs_generate_test_cases rules))"
    then have i: "i < length rules + 1" by (simp add: res len)
    show "map tc_id (dfs_generate_test_cases rules) ! i = map int [1..<length rules + 2] ! i"
    proof (cases "i < length rules")
      case True
      then show ?thesis using nth[OF True] by (simp add: res len nth_append del: upt_Suc)
    next
      case False
      with i have "i = length rules" by simp
      then show ?thesis by (simp add: res len nth_append m del: upt_Suc)
    qed
  qed
  show ?thesis
    using ids by (simp add: res len nth nth_append rule_assignment_map_of)
qed

theorem dfs_generate_shape_witness:
  "length (dfs_generate_test_cases shadowed_policy) = 2
   \<and> map tc_id (dfs_generate_test_cases shadowed_policy) = [1, 2]
   \<and> covers (dfs_generate_test_cases shadowed_policy ! 0) = {|''rule-1''|}
   \<and> map_of (attributes (dfs_generate_test_cases shadowed_policy ! 0)) ''role'' = Some (''guest'', ''subject'')
   \<and> \<not> rule_matches (attributes (dfs_generate_test_cases shadowed_policy ! 0)) (shadowed_policy ! 0)
   \<and> covers (last (dfs_generate_test_cases shadowed_policy)) = {||}"
  using dfs_generate_shape [of shadowed_policy]
  by (simp add: shadowed_policy_def rule_matches_def get_value_def upt_rec)



section \<open>The genetic optimizer\<close>

subsection \<open>Random operators\<close>

lemma random_individual_ok:
  "\<exists>bs. random_individual rnd n k = Inr (bs, k + n) \<and> length bs = n"
proof (induction n arbitrary: k)
  case 0
  then show ?case by simp
next
  case (Suc n)
  obtain bs where "random_individual rnd n (Suc k) = Inr (bs, Suc k + n)" "length bs = n"
    using Suc.IH[of "Suc k"] by blast
  then show ?case by (simp add: randint_def)
qed

lemma initial_population_ok:
  "\<exists>pop k'. initial_population rnd n m k = Inr (pop, k') \<and> length pop = m
      \<and> (\<forall>ind \<in> set pop. length ind = n)"
proof (induction m arbitrary: k)
  case 0
  then show ?case by simp
next
  case (Suc m)
  obtain bs where bs: "random_individual rnd n k = Inr (bs, k + n)" "length bs = n"
    using random_individual_ok by blast
  obtain pop k' where "initial_population rnd n m (k + n) = Inr (pop, k')" "length pop = m"
      "\<forall>ind \<in> set pop. length ind = n"
    using Suc.IH[of "k + n"] by blast
  with bs show ?case by simp
qed

lemma mutate_length: "length (fst (mutate rnd rate bs k)) = length bs"
  by (induction bs arbitrary: k) (simp_all add: split_beta Let_def)

lemma crossover_short: "length p1 \<le> 1 \<Longrightarrow> crossover rnd p1 p2 k = Inl ValueError"
  by (simp add: crossover_def randint_def)

lemma random_sample2_ok:
  "2 \<le> length xs \<Longrightarrow>
     \<exists>a b. random_sample2 rnd xs k = Inr ((a, b), Suc (Suc k)) \<and> a \<in> set xs \<and> b \<in> set xs"
proof -
  assume len: "2 \<le> length xs"
  define i where "i = rnd k mod length xs"
  define j where "j = rnd (Suc k) mod (length xs - 1)"
  define j' where "j' = (if j < i then j else Suc j)"
  have "0 < length xs" using len by linarith
  then have i: "i < length xs" unfolding i_def by (rule mod_less_divisor)
  have "0 < length xs - 1" using len by linarith
  then have j: "j < length xs - 1" unfolding j_def by (rule mod_less_divisor)
  then have j': "j' < length xs" unfolding j'_def by auto
  have "random_sample2 rnd xs k = Inr ((xs ! i, xs ! j'), Suc (Suc k))"
    using len unfolding random_sample2_def Let_def i_def j_def j'_def by (simp del: One_nat_def)
  moreover have "xs ! i \<in> set xs" "xs ! j' \<in> set xs"
    using i j' by simp_all
  ultimately show ?thesis by blast
qed

lemma randint_cut:
  "2 \<le> n \<Longrightarrow> \<exists>p. randint rnd 1 (int n - 1) k = Inr (int p, Suc k) \<and> 1 \<le> p \<and> p < n"
proof -
  assume n: "2 \<le> n"
  let ?d = "rnd k mod nat (int n - 1 - 1 + 1)"
  have "nat (int n - 1 - 1 + 1) = n - 1" by simp
  moreover have "0 < n - 1" using n by linarith
  ultimately have d: "?d < n - 1" by (metis mod_less_divisor)
  have "randint rnd 1 (int n - 1) k = Inr (1 + int ?d, Suc k)"
    using n by (simp add: randint_def)
  moreover have "1 + int ?d = int (Suc ?d)" by simp
  ultimately show ?thesis using d by (intro exI[of _ "Suc ?d"]) (simp del: of_nat_Suc)
qed

subsection \<open>Fitness is defined\<close>

lemma selected_if_empty: "selected_if chosen ind [] = []"
  by (simp add: selected_if_def)

lemma selected_if_subset: "set (selected_if chosen ind tcs) \<subseteq> set tcs"
  by (auto simp: selected_if_def dest: set_zip_rightD)

lemma weigh_defined:
  assumes "set selected \<subseteq> set tcs" "all_rules \<noteq> {||}"
  shows "\<exists>f. weigh rule_coverage selected tcs all_rules alpha beta = Inr f"
proof (cases "selected = []")
  case True
  then show ?thesis by (simp add: weigh_def)
next
  case False
  with assms(1) have "tcs \<noteq> []" by auto
  with False assms(2) show ?thesis
    by (simp add: weigh_def rule_coverage_def py_truediv_def)
qed

lemma fitness_defined:
  "all_rules \<noteq> {||} \<or> tcs = [] \<Longrightarrow> \<exists>f. fitness ind tcs all_rules alpha beta = Inr f"
  unfolding fitness_def
  using weigh_defined[OF selected_if_subset] selected_if_empty
  by (metis weigh_def)


subsection \<open>Keys and sorting\<close>

lemma keyed_Inr:
  "keyed key xs = Inr kxs \<Longrightarrow> map snd kxs = xs \<and> (\<forall>p \<in> set kxs. key (snd p) = Inr (fst p))"
proof (induction xs arbitrary: kxs)
  case Nil
  then show ?case by simp
next
  case (Cons x xs)
  from Cons.prems obtain kx rest where kx: "key x = Inr kx" and rest: "keyed key xs = Inr rest"
    and kxs: "kxs = (kx, x) # rest"
    by (auto split: sum.splits)
  from Cons.IH[OF rest] kx kxs show ?case by simp
qed

lemma keyed_defined:
  "(\<forall>x \<in> set xs. \<exists>f. key x = Inr f) \<Longrightarrow> \<exists>kxs. keyed key xs = Inr kxs"
  by (induction xs) auto

lemma sorted_last_max: "sorted (map f s) \<Longrightarrow> p \<in> set s \<Longrightarrow> f p \<le> f (last s)"
  by (induction s) auto

lemma sorted_reverse_Inr:
  assumes "sorted_reverse key xs = Inr sp"
  shows "set sp = set xs" "length sp = length xs"
    "\<forall>x \<in> set xs. \<exists>fx fb. key x = Inr fx \<and> key (hd sp) = Inr fb \<and> fx \<le> fb"
proof -
  from assms obtain kxs where k: "keyed key xs = Inr kxs"
    and sp: "sp = map snd (rev (sort_key fst (rev kxs)))"
    by (auto simp: sorted_reverse_def split: sum.splits)
  from keyed_Inr[OF k] have snd: "map snd kxs = xs"
    and keys: "\<forall>p \<in> set kxs. key (snd p) = Inr (fst p)" by simp_all
  let ?s = "sort_key fst (rev kxs)"
  have sets: "set ?s = set kxs" by simp
  show "set sp = set xs" using snd by (simp add: sp) (metis set_map)
  show "length sp = length xs" using snd by (simp add: sp) (metis length_map)
  show "\<forall>x \<in> set xs. \<exists>fx fb. key x = Inr fx \<and> key (hd sp) = Inr fb \<and> fx \<le> fb"
  proof
    fix x assume "x \<in> set xs"
    then obtain p where p: "p \<in> set kxs" "snd p = x" using snd by (metis imageE set_map)
    then have "p \<in> set ?s" by simp
    then have ne: "?s \<noteq> []" by (metis empty_iff set_empty)
    have "sorted (map fst ?s)" by (rule sorted_sort_key)
    then have le: "fst p \<le> fst (last ?s)" using p(1) sets by (intro sorted_last_max) auto
    have "last ?s \<in> set kxs" using ne sets last_in_set by blast
    then have kl: "key (snd (last ?s)) = Inr (fst (last ?s))" using keys by blast
    have "hd sp = snd (last ?s)" using ne by (simp add: sp hd_map hd_rev)
    with kl le keys p show "\<exists>fx fb. key x = Inr fx \<and> key (hd sp) = Inr fb \<and> fx \<le> fb"
      by auto
  qed
qed

lemma sorted_reverse_defined:
  "(\<forall>x \<in> set xs. \<exists>f. key x = Inr f) \<Longrightarrow> \<exists>sp. sorted_reverse key xs = Inr sp"
  using keyed_defined[of xs key] by (auto simp: sorted_reverse_def)

subsection \<open>Breeding\<close>

lemma breed_prefix:
  "breed rnd pop m ng k = Inr (res, k') \<Longrightarrow> \<exists>ys. res = ng @ ys"
proof (induction rnd pop m ng k rule: breed.induct)
  case (1 rnd population pop_size next_gen k)
  show ?case
  proof (cases "length next_gen < pop_size")
    case True
    with "1.prems" obtain child k1 where c: "make_child rnd population k = Inr (child, k1)"
      and b: "breed rnd population pop_size (next_gen @ [child]) k1 = Inr (res, k')"
      by (subst (asm) breed.simps) (auto split: sum.splits)
    from "1.IH"[OF True c refl b] show ?thesis by auto
  next
    case False
    with "1.prems" show ?thesis by (subst (asm) breed.simps) simp
  qed
qed

lemma make_child_ok:
  assumes "2 \<le> length population" "\<forall>p \<in> set population. length p = n" "2 \<le> n"
  shows "\<exists>child k1. make_child rnd population k = Inr (child, k1) \<and> length child = n"
proof -
  have "2 \<le> length (take 10 population)" using assms(1) by simp
  then obtain a b where s: "random_sample2 rnd (take 10 population) k = Inr ((a, b), Suc (Suc k))"
    and ab: "a \<in> set (take 10 population)" "b \<in> set (take 10 population)"
    using random_sample2_ok by blast
  from ab assms(2) have la: "length a = n" and lb: "length b = n"
    by (auto dest: in_set_takeD)
  obtain p where r: "randint rnd 1 (int (length a) - 1) (Suc (Suc k)) = Inr (int p, Suc (Suc (Suc k)))"
    and p: "1 \<le> p" "p < n"
    using randint_cut[of "length a"] assms(3) la by auto
  have "length (take p a @ drop p b) = n" using la lb p by simp
  then have "length (fst (mutate rnd (5 / 100) (take p a @ drop p b) (Suc (Suc (Suc k))))) = n"
    by (simp add: mutate_length)
  then show ?thesis
    by (simp add: make_child_def s r) (metis fst_conv surj_pair)
qed

lemma make_child_short:
  assumes "2 \<le> length population" "\<forall>p \<in> set population. length p = n" "n \<le> 1"
  shows "make_child rnd population k = Inl ValueError"
proof -
  have "2 \<le> length (take 10 population)" using assms(1) by simp
  then obtain a b where s: "random_sample2 rnd (take 10 population) k = Inr ((a, b), Suc (Suc k))"
    and ab: "a \<in> set (take 10 population)"
    using random_sample2_ok by blast
  from ab assms(2) have "length a = n" by (auto dest: in_set_takeD)
  with assms(3) have "randint rnd 1 (int (length a) - 1) (Suc (Suc k)) = Inl ValueError"
    by (simp add: randint_def)
  then show ?thesis by (simp add: make_child_def s)
qed

lemma breed_ok:
  assumes "\<forall>p \<in> set population. length p = n" "2 \<le> n"
    "2 \<le> length population \<or> pop_size \<le> length next_gen"
    "\<forall>p \<in> set next_gen. length p = n"
  shows "\<exists>res k'. breed rnd population pop_size next_gen k = Inr (res, k')
           \<and> length res = max pop_size (length next_gen) \<and> (\<forall>p \<in> set res. length p = n)"
  using assms
proof (induction rnd population pop_size next_gen k rule: breed.induct)
  case (1 rnd population pop_size next_gen k)
  show ?case
  proof (cases "length next_gen < pop_size")
    case True
    with "1.prems"(3) have two: "2 \<le> length population" by simp
    obtain child k1 where c: "make_child rnd population k = Inr (child, k1)" and lc: "length child = n"
      using make_child_ok[OF two "1.prems"(1,2)] by blast
    have "\<exists>res k'. breed rnd population pop_size (next_gen @ [child]) k1 = Inr (res, k')
           \<and> length res = max pop_size (length (next_gen @ [child])) \<and> (\<forall>p \<in> set res. length p = n)"
      using "1.prems" lc two by (intro "1.IH"[OF True c refl]) auto
    then obtain res k' where "breed rnd population pop_size (next_gen @ [child]) k1 = Inr (res, k')"
      "length res = max pop_size (length (next_gen @ [child]))" "\<forall>p \<in> set res. length p = n"
      by blast
    moreover have "breed rnd population pop_size next_gen k
                    = breed rnd population pop_size (next_gen @ [child]) k1"
      using True c by (subst breed.simps) simp
    ultimately show ?thesis using True by (intro exI[of _ res] exI[of _ k']) auto
  next
    case False
    with "1.prems" show ?thesis by (subst breed.simps) (simp add: max_def)
  qed
qed


lemma breed_stop: "pop_size \<le> length next_gen \<Longrightarrow> breed rnd population pop_size next_gen k = Inr (next_gen, k)"
  by (subst breed.simps) simp

lemma breed_short:
  assumes "length next_gen < pop_size" "2 \<le> length population"
    "\<forall>p \<in> set population. length p = n" "n \<le> 1"
  shows "breed rnd population pop_size next_gen k = Inl ValueError"
  using assms(1) make_child_short[OF assms(2,3,4)] by (subst breed.simps) simp

lemma evolve_ok:
  assumes "2 \<le> n" "all_rules \<noteq> {||}"
  shows "length population = pop_size \<Longrightarrow> \<forall>p \<in> set population. length p = n \<Longrightarrow>
     \<exists>final k'. evolve rnd tcs all_rules pop_size generations population k = Inr (final, k')
        \<and> length final = pop_size \<and> (\<forall>p \<in> set final. length p = n)"
proof (induction generations arbitrary: population k)
  case 0
  then show ?case by simp
next
  case (Suc g)
  let ?fit = "\<lambda>ind. fitness ind tcs all_rules alpha_default beta_default"
  have "\<forall>x \<in> set population. \<exists>f. ?fit x = Inr f"
    using fitness_defined assms(2) by blast
  then obtain ranked where r: "sorted_reverse ?fit population = Inr ranked"
    using sorted_reverse_defined[of population ?fit] by blast
  have rs: "set ranked = set population" and rl: "length ranked = pop_size"
    using sorted_reverse_Inr(1,2)[OF r] Suc.prems(1) by simp_all
  have a: "\<forall>p \<in> set ranked. length p = n" using rs Suc.prems(2) by simp
  have b: "2 \<le> length ranked \<or> pop_size \<le> length (take 2 ranked)" using rl by auto
  have c: "\<forall>p \<in> set (take 2 ranked). length p = n" using a by (auto dest: in_set_takeD)
  obtain res k1 where br: "breed rnd ranked pop_size (take 2 ranked) k = Inr (res, k1)"
    and len: "length res = max pop_size (length (take 2 ranked))" and all: "\<forall>p \<in> set res. length p = n"
    using breed_ok[OF a assms(1) b c] by blast
  have "length res = pop_size" using len rl by auto
  from Suc.IH[OF this all, of k1] r br show ?case by simp
qed

lemma first_of_nonempty: "xs \<noteq> [] \<Longrightarrow> first_of xs = Inr (hd xs)"
  by (cases xs) (simp_all add: first_of_def)

lemma genetic_algorithm_ok:
  assumes "2 \<le> length tcs" "all_rules \<noteq> {||}" "1 \<le> pop_size"
  shows "\<exists>ind. genetic_algorithm rnd tcs all_rules pop_size generations = Inr ind
           \<and> length ind = length tcs"
proof -
  obtain pop k where ip: "initial_population rnd (length tcs) pop_size 0 = Inr (pop, k)"
    and lp: "length pop = pop_size" and ap: "\<forall>ind \<in> set pop. length ind = length tcs"
    using initial_population_ok by blast
  obtain final k' where ev: "evolve rnd tcs all_rules pop_size generations pop k = Inr (final, k')"
    and lf: "length final = pop_size" and af: "\<forall>p \<in> set final. length p = length tcs"
    using evolve_ok[OF assms(1,2) lp ap] by blast
  have ne: "final \<noteq> []" using lf assms(3) by auto
  then have "hd final \<in> set final" by simp
  with af have "length (hd final) = length tcs" by blast
  then show ?thesis
    by (simp add: genetic_algorithm_def ip ev first_of_nonempty[OF ne])
qed

lemma genetic_algorithm_short:
  assumes "length tcs \<le> 1" "all_rules \<noteq> {||} \<or> tcs = []" "3 \<le> pop_size" "1 \<le> generations"
  shows "genetic_algorithm rnd tcs all_rules pop_size generations = Inl ValueError"
proof -
  obtain g where g: "generations = Suc g" using assms(4) by (cases generations) auto
  obtain pop k where ip: "initial_population rnd (length tcs) pop_size 0 = Inr (pop, k)"
    and lp: "length pop = pop_size" and ap: "\<forall>ind \<in> set pop. length ind = length tcs"
    using initial_population_ok by blast
  let ?fit = "\<lambda>ind. fitness ind tcs all_rules alpha_default beta_default"
  have "\<forall>x \<in> set pop. \<exists>f. ?fit x = Inr f"
    using fitness_defined[OF assms(2)] by blast
  then obtain ranked where r: "sorted_reverse ?fit pop = Inr ranked"
    using sorted_reverse_defined[of pop ?fit] by blast
  have rs: "set ranked = set pop" and rl: "length ranked = pop_size"
    using sorted_reverse_Inr(1,2)[OF r] lp by simp_all
  have a: "\<forall>p \<in> set ranked. length p = length tcs" using rs ap by simp
  have "length (take 2 ranked) < pop_size" using rl assms(3) by simp
  moreover have "2 \<le> length ranked" using rl assms(3) by simp
  ultimately have "breed rnd ranked pop_size (take 2 ranked) k = Inl ValueError"
    using a assms(1) by (rule breed_short)
  then show ?thesis
    by (simp add: genetic_algorithm_def ip g r)
qed

lemma evolve_best:
  "evolve rnd tcs all_rules pop_size (Suc g) population k = Inr (final, k') \<Longrightarrow> x \<in> set population \<Longrightarrow>
     final \<noteq> [] \<and> (\<exists>fx fb. fitness x tcs all_rules alpha_default beta_default = Inr fx
                       \<and> fitness (hd final) tcs all_rules alpha_default beta_default = Inr fb \<and> fx \<le> fb)"
proof (induction g arbitrary: population k x)
  case 0
  let ?fit = "\<lambda>ind. fitness ind tcs all_rules alpha_default beta_default"
  from "0.prems"(1) obtain ranked k1 where r: "sorted_reverse ?fit population = Inr ranked"
    and br: "breed rnd ranked pop_size (take 2 ranked) k = Inr (final, k')"
    by (auto split: sum.splits)
  from sorted_reverse_Inr[OF r] "0.prems"(2)
  have rs: "set ranked = set population"
    and best: "\<exists>fx fb. ?fit x = Inr fx \<and> ?fit (hd ranked) = Inr fb \<and> fx \<le> fb" by auto
  have ne: "ranked \<noteq> []" using rs "0.prems"(2) by auto
  obtain ys where "final = take 2 ranked @ ys" using breed_prefix[OF br] by blast
  with ne have "final \<noteq> []" "hd final = hd ranked" by (cases ranked; simp)+
  with best show ?case by simp
next
  case (Suc g)
  let ?fit = "\<lambda>ind. fitness ind tcs all_rules alpha_default beta_default"
  from Suc.prems(1) obtain ranked next_gen k1 where r: "sorted_reverse ?fit population = Inr ranked"
    and br: "breed rnd ranked pop_size (take 2 ranked) k = Inr (next_gen, k1)"
    and ev: "evolve rnd tcs all_rules pop_size (Suc g) next_gen k1 = Inr (final, k')"
    by (auto split: sum.splits)
  from sorted_reverse_Inr[OF r] Suc.prems(2)
  have rs: "set ranked = set population"
    and best: "\<exists>fx fb. ?fit x = Inr fx \<and> ?fit (hd ranked) = Inr fb \<and> fx \<le> fb" by auto
  have ne: "ranked \<noteq> []" using rs Suc.prems(2) by auto
  obtain ys where "next_gen = take 2 ranked @ ys" using breed_prefix[OF br] by blast
  with ne have "next_gen \<noteq> []" "hd next_gen = hd ranked" by (cases ranked; simp)+
  then have "hd ranked \<in> set next_gen" by (metis hd_in_set)
  from Suc.IH[OF ev this] best show ?case by force
qed

text \<open>
  In \<^verbatim>\<open>testcase.py\<close> the two fittest individuals are copied to the head of the next
  generation. With at least one generation, a run that returns an individual returns one
  whose fitness, in the arithmetic of the model, is not lower than that of any individual
  of the initial population.
\<close>

lemma elitist_floor:
  assumes "1 \<le> generations"
    and "initial_population rnd (length tcs) pop_size 0 = Inr (pop0, k0)"
    and "genetic_algorithm rnd tcs all_rules pop_size generations = Inr best"
    and "x \<in> set pop0"
  shows "\<exists>fx fb. fitness x tcs all_rules alpha_default beta_default = Inr fx
            \<and> fitness best tcs all_rules alpha_default beta_default = Inr fb \<and> fx \<le> fb"
proof -
  obtain g where g: "generations = Suc g" using assms(1) by (cases generations) auto
  from assms(3) obtain final k' where ev: "evolve rnd tcs all_rules pop_size (Suc g) pop0 k0 = Inr (final, k')"
    and fo: "first_of final = Inr best"
    by (auto simp: genetic_algorithm_def assms(2) g split: sum.splits)
  from evolve_best[OF ev assms(4)] have ne: "final \<noteq> []"
    and le: "\<exists>fx fb. fitness x tcs all_rules alpha_default beta_default = Inr fx
                \<and> fitness (hd final) tcs all_rules alpha_default beta_default = Inr fb \<and> fx \<le> fb"
    by simp_all
  from fo ne have "best = hd final" by (simp add: first_of_nonempty)
  with le show ?thesis by simp
qed


lemma late_initial: "initial_population late_child_tape 2 3 0 = Inr ([[1,0],[0,1],[0,0]], 6)"
  by (simp add: late_child_tape_def tape_of_def randint_def numeral_2_eq_2 numeral_3_eq_3)

lemma late_fitness:
  "fitness [1,0] two_case_pool both_rules alpha_default beta_default = Inr (3 / 10)"
  "fitness [0,1] two_case_pool both_rules alpha_default beta_default = Inr (3 / 10)"
  "fitness [0,0] two_case_pool both_rules alpha_default beta_default = Inr 0"
  "fitness [1,1] two_case_pool both_rules alpha_default beta_default = Inr (3 / 5)"
  by (simp_all add: fitness_def weigh_def selected_if_def two_case_pool_def both_rules_def
      rule_coverage_def covered_by_def py_truediv_def manager_case_def guest_case_def
      fcard_finsert_if fcard_fempty alpha_default_def beta_default_def)


lemma late_sorted:
  "sorted_reverse (\<lambda>ind. fitness ind two_case_pool both_rules alpha_default beta_default)
      [[1,0],[0,1],[0,0]] = Inr [[1,0],[0,1],[0,0]]"
  by (simp add: sorted_reverse_def late_fitness)

lemma late_child: "make_child late_child_tape [[1,0],[0,1],[0,0]] 6 = Inr ([1,1], 11)"
  by (simp add: make_child_def random_sample2_def randint_def random_float_def
      late_child_tape_def tape_of_def Let_def)

lemma late_breed: "breed late_child_tape [[1,0],[0,1],[0,0]] 3 [[1,0],[0,1]] 6 = Inr ([[1,0],[0,1],[1,1]], 11)"
  by (simp add: breed.simps[of _ _ _ "[[1,0],[0,1]]"] breed.simps[of _ _ _ "[[1,0],[0,1],[1,1]]"] late_child)

lemma late_run: "genetic_algorithm late_child_tape two_case_pool both_rules 3 1 = Inr [1,0]"
proof -
  have "length two_case_pool = 2" by (simp add: two_case_pool_def)
  then show ?thesis
    by (simp add: genetic_algorithm_def late_initial late_sorted late_breed first_of_def)
qed


lemma opt_fit_vals:
  "opt_fitness [1,1] two_case_pool both_rules alpha_default beta_default = Inr (3 / 5)"
  "opt_fitness [0,0] two_case_pool both_rules alpha_default beta_default = Inr 0"
  by (simp_all add: opt_fitness_def weigh_def selected_if_def two_case_pool_def both_rules_def
      rule_coverage_opt_def covered_by_def py_truediv_def manager_case_def guest_case_def
      fcard_finsert_if fcard_fempty alpha_default_def beta_default_def)

lemma flip_ip: "initial_population flip_tape 2 1 0 = Inr ([[1,1]], 2)"
  by (simp add: flip_tape_def tape_of_def randint_def numeral_2_eq_2)

lemma flip_child:
  "sb_child flip_tape (\<lambda>ind. opt_fitness ind two_case_pool both_rules alpha_default beta_default) [[1,1]] 2
     = Inr ([0,0], 5)"
  by (simp add: sb_child_def select_best_def max_by_def opt_fit_vals crossover_def randint_def
      random_float_def flip_tape_def tape_of_def Let_def)

lemma flip_evolve:
  "sb_evolve flip_tape (\<lambda>ind. opt_fitness ind two_case_pool both_rules alpha_default beta_default)
      1 1 [[1,1]] 2 = Inr ([[0,0]], 5)"
  by (simp add: flip_child)

lemma flip_best:
  "select_best (\<lambda>ind. opt_fitness ind two_case_pool both_rules alpha_default beta_default) [[0,0]]
     = Inr [0,0]"
  by (simp add: select_best_def max_by_def opt_fit_vals)

lemma two_case_pool_length: "length two_case_pool = 2"
  by (simp add: two_case_pool_def)

lemma flip_run: "opt_genetic_algorithm flip_tape two_case_pool both_rules 1 1 = Inr [0,0]"
  by (simp only: opt_genetic_algorithm_def sb_genetic_algorithm_def two_case_pool_length
      flip_ip flip_evolve flip_best sum.case prod.case)

lemma ga_fit_vals:
  "ga_fitness [1,1] two_case_pool both_rules alpha_default beta_default = Inr (3 / 5)"
  "ga_fitness [0,0] two_case_pool both_rules alpha_default beta_default = Inr 0"
  by (simp_all add: ga_fitness_def weigh_def selected_if_def two_case_pool_def both_rules_def
      rule_coverage_def covered_by_def py_truediv_def manager_case_def guest_case_def
      fcard_finsert_if fcard_fempty alpha_default_def beta_default_def)

lemma ga_flip_child:
  "sb_child flip_tape (\<lambda>ind. ga_fitness ind two_case_pool both_rules alpha_default beta_default) [[1,1]] 2
     = Inr ([0,0], 5)"
  by (simp add: sb_child_def select_best_def max_by_def ga_fit_vals crossover_def randint_def
      random_float_def flip_tape_def tape_of_def Let_def)

lemma ga_flip_evolve:
  "sb_evolve flip_tape (\<lambda>ind. ga_fitness ind two_case_pool both_rules alpha_default beta_default)
      1 1 [[1,1]] 2 = Inr ([[0,0]], 5)"
  by (simp add: ga_flip_child)

lemma ga_flip_best:
  "select_best (\<lambda>ind. ga_fitness ind two_case_pool both_rules alpha_default beta_default) [[0,0]]
     = Inr [0,0]"
  by (simp add: select_best_def max_by_def ga_fit_vals)

lemma ga_flip_run: "ga_genetic_algorithm flip_tape two_case_pool both_rules 1 1 = Inr [0,0]"
  by (simp only: ga_genetic_algorithm_def sb_genetic_algorithm_def two_case_pool_length
      flip_ip ga_flip_evolve ga_flip_best sum.case prod.case)

lemma head_initial: "initial_population head_tape 2 2 0 = Inr ([[0,0],[1,1]], 4)"
  by (simp add: head_tape_def tape_of_def randint_def numeral_2_eq_2)

lemma head_evolve:
  "evolve head_tape two_case_pool both_rules 2 0 [[0,0],[1,1]] 4 = Inr ([[0,0],[1,1]], 4)"
  by simp

lemma head_first: "first_of [[0,0],[1,1::int]] = Inr [0,0]"
  by (simp add: first_of_def)

lemma head_run: "genetic_algorithm head_tape two_case_pool both_rules 2 0 = Inr [0,0]"
  by (simp only: genetic_algorithm_def two_case_pool_length head_initial head_evolve head_first
      sum.case prod.case)

lemma opt_head_evolve:
  "sb_evolve head_tape (\<lambda>ind. opt_fitness ind two_case_pool both_rules alpha_default beta_default)
      2 0 [[0,0],[1,1]] 4 = Inr ([[0,0],[1,1]], 4)"
  by simp

lemma opt_head_best:
  "select_best (\<lambda>ind. opt_fitness ind two_case_pool both_rules alpha_default beta_default)
      [[0,0],[1,1]] = Inr [1,1]"
  by (simp add: select_best_def max_by_def opt_fit_vals)

lemma opt_head_run: "opt_genetic_algorithm head_tape two_case_pool both_rules 2 0 = Inr [1,1]"
  by (simp only: opt_genetic_algorithm_def sb_genetic_algorithm_def two_case_pool_length
      head_initial opt_head_evolve opt_head_best sum.case prod.case)

text \<open>
  C4, at the runs where the returned individual is less fit than an individual of the
  initial population. In \<^verbatim>\<open>xacml_test_optimization.py\<close> and \<^verbatim>\<open>xacml_testcase_ga.py\<close>
  every individual of the next population is a mutated copy of the best one and the best
  one is not kept: with one individual and one generation, the initial individual
  \<open>[1,1]\<close> has fitness 0.6, both bits mutate, and the run returns \<open>[0,0]\<close> of fitness 0.
  In \<^verbatim>\<open>testcase.py\<close> the population is ranked only inside the generations loop: with
  no generation and the initial population \<open>[0,0]\<close>, \<open>[1,1]\<close> the run returns the first
  individual \<open>[0,0]\<close> of fitness 0 while \<open>[1,1]\<close> has fitness 0.6, and
  \<^verbatim>\<open>xacml_test_optimization.py\<close> returns \<open>[1,1]\<close> on the same draws.
\<close>

theorem convergence_floor_failing_runs:
  "initial_population flip_tape (length two_case_pool) 1 0 = Inr ([[1,1]], 2)
   \<and> opt_fitness [1,1] two_case_pool both_rules alpha_default beta_default = Inr (3 / 5)
   \<and> opt_genetic_algorithm flip_tape two_case_pool both_rules 1 1 = Inr [0,0]
   \<and> opt_fitness [0,0] two_case_pool both_rules alpha_default beta_default = Inr 0
   \<and> ga_fitness [1,1] two_case_pool both_rules alpha_default beta_default = Inr (3 / 5)
   \<and> ga_genetic_algorithm flip_tape two_case_pool both_rules 1 1 = Inr [0,0]
   \<and> ga_fitness [0,0] two_case_pool both_rules alpha_default beta_default = Inr 0
   \<and> initial_population head_tape (length two_case_pool) 2 0 = Inr ([[0,0],[1,1]], 4)
   \<and> fitness [1,1] two_case_pool both_rules alpha_default beta_default = Inr (3 / 5)
   \<and> genetic_algorithm head_tape two_case_pool both_rules 2 0 = Inr [0,0]
   \<and> fitness [0,0] two_case_pool both_rules alpha_default beta_default = Inr 0
   \<and> opt_genetic_algorithm head_tape two_case_pool both_rules 2 0 = Inr [1,1]"
proof -
  have a: "initial_population flip_tape (length two_case_pool) 1 0 = Inr ([[1,1]], 2)"
    by (simp only: two_case_pool_length flip_ip)
  have b: "initial_population head_tape (length two_case_pool) 2 0 = Inr ([[0,0],[1,1]], 4)"
    by (simp only: two_case_pool_length head_initial)
  show ?thesis
    by (intro conjI a b flip_run ga_flip_run head_run opt_head_run opt_fit_vals ga_fit_vals
        late_fitness)
qed

lemma late_evolve:
  "evolve late_child_tape two_case_pool both_rules 3 1 [[1,0],[0,1],[0,0]] 6
        = Inr ([[1,0],[0,1],[1,1]], 11)"
  by (simp add: late_sorted late_breed)

text \<open>
  C5, at a run of \<^verbatim>\<open>testcase.py\<close> with three individuals and one generation. The
  population after the generation is \<open>[1,0]\<close>, \<open>[0,1]\<close>, \<open>[1,1]\<close>: the two survivors
  followed by the child. The run returns its first element \<open>[1,0]\<close>, of fitness 0.3, and
  the child \<open>[1,1]\<close> of the same population has fitness 0.6.
\<close>

theorem final_population_unranked:
  "genetic_algorithm late_child_tape two_case_pool both_rules 3 1 = Inr [1,0]
   \<and> evolve late_child_tape two_case_pool both_rules 3 1 [[1,0],[0,1],[0,0]] 6
        = Inr ([[1,0],[0,1],[1,1]], 11)
   \<and> fitness [1,0] two_case_pool both_rules alpha_default beta_default = Inr (3 / 10)
   \<and> fitness [1,1] two_case_pool both_rules alpha_default beta_default = Inr (3 / 5)"
  by (intro conjI late_run late_evolve late_fitness)

text \<open>
  C2, amended. For every sequence of draws: with a candidate pool of at least two vectors,
  a non-empty set of rule identifiers and a population of at least one individual,
  \<^verbatim>\<open>genetic_algorithm\<close> of \<^verbatim>\<open>testcase.py\<close> returns an individual with one bit for each
  candidate. With a pool of at most one vector (and rule identifiers, or no vector at all),
  at least three individuals and at least one generation it raises \<^verbatim>\<open>ValueError\<close>, the
  cut point being drawn from an empty range. \<^verbatim>\<open>crossover\<close> raises \<^verbatim>\<open>ValueError\<close>
  for a first parent of length at most 1; \<^verbatim>\<open>mutate\<close> returns a list of the length of
  its argument for every length.
\<close>

theorem optimizer_failure_semantics:
  "(2 \<le> length tcs \<and> all_rules \<noteq> {||} \<and> 1 \<le> pop_size \<longrightarrow>
      (\<exists>ind. genetic_algorithm rnd tcs all_rules pop_size generations = Inr ind
          \<and> length ind = length tcs))
   \<and> (length tcs \<le> 1 \<and> (all_rules \<noteq> {||} \<or> tcs = []) \<and> 3 \<le> pop_size \<and> 1 \<le> generations \<longrightarrow>
        genetic_algorithm rnd tcs all_rules pop_size generations = Inl ValueError)
   \<and> (length p1 \<le> 1 \<longrightarrow> crossover rnd p1 p2 k = Inl ValueError)
   \<and> length (fst (mutate rnd rate p1 k)) = length p1"
  using genetic_algorithm_ok[of tcs all_rules pop_size rnd generations]
    genetic_algorithm_short[of tcs all_rules pop_size generations rnd]
    crossover_short[of p1 rnd p2 k] mutate_length[of rnd rate p1 k]
  by blast

text \<open>
  C2, as the code has it. With the default 20 individuals and 50 generations, a pool of one
  vector and the empty pool both end in \<^verbatim>\<open>ValueError\<close>, and so does \<^verbatim>\<open>crossover\<close> of
  two parents of length 1.
\<close>

theorem degenerate_pool_counterexample:
  "genetic_algorithm zero_draws [manager_case] both_rules 20 50 = Inl ValueError
   \<and> genetic_algorithm zero_draws [] both_rules 20 50 = Inl ValueError
   \<and> crossover zero_draws [1] [1] 0 = Inl ValueError"
  by (simp add: genetic_algorithm_short crossover_short both_rules_def)

theorem optimizer_failure_semantics_witness:
  "(\<exists>ind. genetic_algorithm zero_draws two_case_pool both_rules 20 50 = Inr ind
       \<and> length ind = length two_case_pool)
   \<and> genetic_algorithm zero_draws [guest_case] both_rules 20 50 = Inl ValueError
   \<and> crossover zero_draws [0] [1] 0 = Inl ValueError"
proof -
  have ne: "both_rules \<noteq> {||}" by (simp add: both_rules_def)
  have h1: "2 \<le> length two_case_pool \<and> both_rules \<noteq> {||} \<and> (1::nat) \<le> 20"
    using ne by (simp add: two_case_pool_length)
  have h2: "length [guest_case] \<le> 1 \<and> (both_rules \<noteq> {||} \<or> [guest_case] = [])
              \<and> (3::nat) \<le> 20 \<and> (1::nat) \<le> 50"
    using ne by simp
  have h3: "length [0::int] \<le> 1" by simp
  from optimizer_failure_semantics [where tcs = two_case_pool and all_rules = both_rules and pop_size = 20
      and rnd = zero_draws and generations = 50 and ?p1.0 = "[0]" and ?p2.0 = "[1]" and k = 0 and rate = 0] h1
  have a: "\<exists>ind. genetic_algorithm zero_draws two_case_pool both_rules 20 50 = Inr ind
       \<and> length ind = length two_case_pool"
    by blast
  from optimizer_failure_semantics [where tcs = "[guest_case]" and all_rules = both_rules and pop_size = 20
      and rnd = zero_draws and generations = 50 and ?p1.0 = "[0]" and ?p2.0 = "[1]" and k = 0 and rate = 0] h2 h3
  have b: "genetic_algorithm zero_draws [guest_case] both_rules 20 50 = Inl ValueError"
    and c: "crossover zero_draws [0] [1] 0 = Inl ValueError"
    by blast+
  from a b c show ?thesis by blast
qed


subsection \<open>The result of the \<^verbatim>\<open>select_best\<close> variant\<close>

text \<open>
  \<^verbatim>\<open>xacml_testcase_ga.py\<close> and \<^verbatim>\<open>xacml_test_optimization.py\<close> end with
  \<^verbatim>\<open>select_best(population)\<close>: a run that returns an individual returns an individual of
  the final population whose fitness is strictly greater than that of every individual
  before it and at least that of every individual after it.
\<close>

lemma max_scan_first:
  "max_scan key ys best kb = Inr b \<Longrightarrow>
     (b = best \<and> (\<forall>y \<in> set ys. \<exists>fy. key y = Inr fy \<and> fy \<le> kb))
     \<or> (\<exists>pre post fb. ys = pre @ b # post \<and> key b = Inr fb \<and> kb < fb
            \<and> (\<forall>y \<in> set pre. \<exists>fy. key y = Inr fy \<and> fy < fb)
            \<and> (\<forall>y \<in> set post. \<exists>fy. key y = Inr fy \<and> fy \<le> fb))"
proof (induction ys arbitrary: best kb)
  case Nil
  then show ?case by simp
next
  case (Cons y ys)
  from Cons.prems obtain ky where ky: "key y = Inr ky"
    by (auto split: sum.splits)
  show ?case
  proof (cases "kb < ky")
    case True
    with Cons.prems ky have run: "max_scan key ys y ky = Inr b" by simp
    from Cons.IH[OF run] show ?thesis
    proof
      assume "b = y \<and> (\<forall>z \<in> set ys. \<exists>fz. key z = Inr fz \<and> fz \<le> ky)"
      then have "y # ys = [] @ b # ys \<and> key b = Inr ky \<and> kb < ky
            \<and> (\<forall>z \<in> set []. \<exists>fz. key z = Inr fz \<and> fz < ky)
            \<and> (\<forall>z \<in> set ys. \<exists>fz. key z = Inr fz \<and> fz \<le> ky)"
        using ky True by simp
      then show ?thesis by blast
    next
      assume "\<exists>pre post fb. ys = pre @ b # post \<and> key b = Inr fb \<and> ky < fb
            \<and> (\<forall>z \<in> set pre. \<exists>fz. key z = Inr fz \<and> fz < fb)
            \<and> (\<forall>z \<in> set post. \<exists>fz. key z = Inr fz \<and> fz \<le> fb)"
      then obtain pre post fb where d: "ys = pre @ b # post" "key b = Inr fb" "ky < fb"
          "\<forall>z \<in> set pre. \<exists>fz. key z = Inr fz \<and> fz < fb"
          "\<forall>z \<in> set post. \<exists>fz. key z = Inr fz \<and> fz \<le> fb"
        by blast
      have "y # ys = (y # pre) @ b # post \<and> key b = Inr fb \<and> kb < fb
            \<and> (\<forall>z \<in> set (y # pre). \<exists>fz. key z = Inr fz \<and> fz < fb)
            \<and> (\<forall>z \<in> set post. \<exists>fz. key z = Inr fz \<and> fz \<le> fb)"
        using d ky True by auto
      then show ?thesis by blast
    qed
  next
    case False
    with Cons.prems ky have run: "max_scan key ys best kb = Inr b" by simp
    from Cons.IH[OF run] show ?thesis
    proof
      assume "b = best \<and> (\<forall>z \<in> set ys. \<exists>fz. key z = Inr fz \<and> fz \<le> kb)"
      then show ?thesis using ky False by auto
    next
      assume "\<exists>pre post fb. ys = pre @ b # post \<and> key b = Inr fb \<and> kb < fb
            \<and> (\<forall>z \<in> set pre. \<exists>fz. key z = Inr fz \<and> fz < fb)
            \<and> (\<forall>z \<in> set post. \<exists>fz. key z = Inr fz \<and> fz \<le> fb)"
      then obtain pre post fb where d: "ys = pre @ b # post" "key b = Inr fb" "kb < fb"
          "\<forall>z \<in> set pre. \<exists>fz. key z = Inr fz \<and> fz < fb"
          "\<forall>z \<in> set post. \<exists>fz. key z = Inr fz \<and> fz \<le> fb"
        by blast
      have "y # ys = (y # pre) @ b # post \<and> key b = Inr fb \<and> kb < fb
            \<and> (\<forall>z \<in> set (y # pre). \<exists>fz. key z = Inr fz \<and> fz < fb)
            \<and> (\<forall>z \<in> set post. \<exists>fz. key z = Inr fz \<and> fz \<le> fb)"
        using d ky False by auto
      then show ?thesis by blast
    qed
  qed
qed

lemma select_best_first_max:
  assumes "select_best fit population = Inr b"
  shows "\<exists>pre post fb. population = pre @ b # post \<and> fit b = Inr fb
            \<and> (\<forall>y \<in> set pre. \<exists>fy. fit y = Inr fy \<and> fy < fb)
            \<and> (\<forall>y \<in> set post. \<exists>fy. fit y = Inr fy \<and> fy \<le> fb)"
proof -
  from assms obtain x ys kx where p: "population = x # ys" and kx: "fit x = Inr kx"
    and run: "max_scan fit ys x kx = Inr b"
    by (auto simp: select_best_def max_by_def split: list.splits sum.splits)
  from max_scan_first[OF run] show ?thesis
  proof
    assume "b = x \<and> (\<forall>y \<in> set ys. \<exists>fy. fit y = Inr fy \<and> fy \<le> kx)"
    then have "population = [] @ b # ys \<and> fit b = Inr kx
            \<and> (\<forall>y \<in> set []. \<exists>fy. fit y = Inr fy \<and> fy < kx)
            \<and> (\<forall>y \<in> set ys. \<exists>fy. fit y = Inr fy \<and> fy \<le> kx)"
      using p kx by simp
    then show ?thesis by blast
  next
    assume "\<exists>pre post fb. ys = pre @ b # post \<and> fit b = Inr fb \<and> kx < fb
            \<and> (\<forall>z \<in> set pre. \<exists>fz. fit z = Inr fz \<and> fz < fb)
            \<and> (\<forall>z \<in> set post. \<exists>fz. fit z = Inr fz \<and> fz \<le> fb)"
    then obtain pre post fb where d: "ys = pre @ b # post" "fit b = Inr fb" "kx < fb"
          "\<forall>z \<in> set pre. \<exists>fz. fit z = Inr fz \<and> fz < fb"
          "\<forall>z \<in> set post. \<exists>fz. fit z = Inr fz \<and> fz \<le> fb"
      by blast
    have "population = (x # pre) @ b # post \<and> fit b = Inr fb
            \<and> (\<forall>z \<in> set (x # pre). \<exists>fz. fit z = Inr fz \<and> fz < fb)
            \<and> (\<forall>z \<in> set post. \<exists>fz. fit z = Inr fz \<and> fz \<le> fb)"
      using d p kx by auto
    then show ?thesis by blast
  qed
qed

lemma sb_genetic_algorithm_best:
  assumes "sb_genetic_algorithm rnd fit n pop_size generations = Inr b"
  shows "\<exists>population k final k' pre post fb.
           initial_population rnd n pop_size 0 = Inr (population, k)
         \<and> sb_evolve rnd fit pop_size generations population k = Inr (final, k')
         \<and> final = pre @ b # post \<and> fit b = Inr fb
         \<and> (\<forall>y \<in> set pre. \<exists>fy. fit y = Inr fy \<and> fy < fb)
         \<and> (\<forall>y \<in> set post. \<exists>fy. fit y = Inr fy \<and> fy \<le> fb)"
proof -
  from assms obtain population k final k' where
    a: "initial_population rnd n pop_size 0 = Inr (population, k)"
    and b: "sb_evolve rnd fit pop_size generations population k = Inr (final, k')"
    and c: "select_best fit final = Inr b"
    by (auto simp: sb_genetic_algorithm_def split: sum.splits)
  from select_best_first_max[OF c] a b show ?thesis by blast
qed

lemma ga_genetic_algorithm_best:
  assumes "ga_genetic_algorithm rnd tcs all_rules pop_size generations = Inr b"
  shows "\<exists>population k final k' pre post fb.
           initial_population rnd (length tcs) pop_size 0 = Inr (population, k)
         \<and> sb_evolve rnd (\<lambda>ind. ga_fitness ind tcs all_rules alpha_default beta_default)
               pop_size generations population k = Inr (final, k')
         \<and> final = pre @ b # post
         \<and> ga_fitness b tcs all_rules alpha_default beta_default = Inr fb
         \<and> (\<forall>y \<in> set pre. \<exists>fy. ga_fitness y tcs all_rules alpha_default beta_default = Inr fy \<and> fy < fb)
         \<and> (\<forall>y \<in> set post. \<exists>fy. ga_fitness y tcs all_rules alpha_default beta_default = Inr fy \<and> fy \<le> fb)"
  using sb_genetic_algorithm_best[OF assms[unfolded ga_genetic_algorithm_def]] .

end
